theory Spec2Isabelle
  imports Complex_Main "HOL-Library.Log_Nat"
begin

section \<open>Numbers and errors of the source language\<close>

text \<open>
  The voice service is Python. Its integers are unbounded (\<open>int\<close>). Division by zero
  raises, \<open>int\<close> of an infinite float raises \<open>OverflowError\<close> (as does the conversion of
  an integer beyond the range of a float), and \<open>int\<close> of a NaN raises \<open>ValueError\<close>; each
  is a branch of the model.
\<close>

datatype error = ZeroDivisionError | OverflowError | ValueError

subsection \<open>Quotients of two integers\<close>

text \<open>
  \<open>a / b\<close> on two ints is used by the source only under \<open>int(...)\<close>. The quotient is
  taken exactly here; Python rounds it to a float first, which leaves its integer part as it
  is for operands below \<open>2^53\<close>.
\<close>

definition truediv :: "real \<Rightarrow> real \<Rightarrow> error + real" where
  "truediv a b = (if b = 0 then Inl ZeroDivisionError else Inr (a / b))"

text \<open>\<open>int(x)\<close> on a finite number: truncation towards zero.\<close>

definition py_int :: "real \<Rightarrow> int" where
  "py_int x = (if 0 \<le> x then \<lfloor>x\<rfloor> else \<lceil>x\<rceil>)"

text \<open>\<open>max(1, int(q))\<close>, used as a count (\<open>range\<close>, \<open>deque(maxlen=...)\<close>, \<open>len\<close>).\<close>

definition at_least_one :: "real \<Rightarrow> nat" where
  "at_least_one q = nat (max 1 (py_int q))"

subsection \<open>Floats\<close>

text \<open>
  A Python float is an IEEE 754 double: a finite value, an infinity or a NaN. The sign of a
  zero plays no part in this program (a zero divisor raises whatever its sign, and \<open>int\<close>
  of either zero is 0), so the finite values are kept as the real numbers they stand for.
\<close>

datatype pyfloat = Finite real | PosInf | NegInf | NaN

text \<open>Rounding to the nearest integer, a tie going to the even one.\<close>

definition round_half_even :: "real \<Rightarrow> int" where
  "round_half_even y =
     (let f = \<lfloor>y\<rfloor>; d = y - of_int f
      in if d < 1 / 2 then f else if 1 / 2 < d then f + 1 else if even f then f else f + 1)"

text \<open>\<open>floor(log2(a))\<close> for a positive \<open>a\<close>, by the bit length of an integer.\<close>

definition ilog2 :: "real \<Rightarrow> int" where
  "ilog2 a = (if 1 \<le> a then bitlen \<lfloor>a\<rfloor> - 1 else - bitlen (\<lceil>1 / a\<rceil> - 1))"

text \<open>\<open>x * 2^e\<close> for an integer \<open>e\<close> of either sign.\<close>

definition scale2 :: "real \<Rightarrow> int \<Rightarrow> real" where
  "scale2 x e = (if 0 \<le> e then x * 2 ^ nat e else x / 2 ^ nat (- e))"

text \<open>
  The double nearest to a real number (round to nearest, ties to even). A double has a
  mantissa of 53 bits; the last of them has the weight \<open>2^e\<close> with
  \<open>e = floor(log2 |x|) - 52\<close>, and no less than \<open>2^-1074\<close> (the subnormal numbers). The
  mantissa \<open>m\<close> is \<open>|x| / 2^e\<close> rounded. When the rounded value reaches \<open>2^1024\<close>, the
  result is an infinity.
\<close>

definition to_double :: "real \<Rightarrow> pyfloat" where
  "to_double x =
     (if x = 0 then Finite 0
      else let e = max (- 1074) (ilog2 \<bar>x\<bar> - 52);
               m = round_half_even (scale2 \<bar>x\<bar> (- e));
               r = scale2 (of_int m) e
           in if 1024 < bitlen m + e then (if x < 0 then NegInf else PosInf)
              else Finite (if x < 0 then - r else r))"

text \<open>A configured number that is not itself a double stands for the double nearest to it,
  as when Python reads it.\<close>

definition as_double :: "pyfloat \<Rightarrow> pyfloat" where
  "as_double x = (case x of Finite r \<Rightarrow> to_double r | _ \<Rightarrow> x)"

text \<open>\<open>a * b\<close> on two floats. It never raises.\<close>

fun float_mul :: "pyfloat \<Rightarrow> pyfloat \<Rightarrow> pyfloat" where
  "float_mul NaN b = NaN"
| "float_mul a NaN = NaN"
| "float_mul (Finite a) (Finite b) = to_double (a * b)"
| "float_mul (Finite a) b =
     (if a = 0 then NaN else if (0 < a) = (b = PosInf) then PosInf else NegInf)"
| "float_mul a (Finite b) =
     (if b = 0 then NaN else if (0 < b) = (a = PosInf) then PosInf else NegInf)"
| "float_mul a b = (if a = b then PosInf else NegInf)"

text \<open>\<open>a / b\<close> on two floats: a zero divisor raises.\<close>

fun float_div :: "pyfloat \<Rightarrow> pyfloat \<Rightarrow> error + pyfloat" where
  "float_div a (Finite b) =
     (if b = 0 then Inl ZeroDivisionError
      else (case a of
              Finite x \<Rightarrow> Inr (to_double (x / b))
            | PosInf \<Rightarrow> Inr (if 0 < b then PosInf else NegInf)
            | NegInf \<Rightarrow> Inr (if 0 < b then NegInf else PosInf)
            | NaN \<Rightarrow> Inr NaN))"
| "float_div NaN b = Inr NaN"
| "float_div a NaN = Inr NaN"
| "float_div (Finite x) b = Inr (Finite 0)"
| "float_div a b = Inr NaN"

text \<open>The conversion of an int operand to a float, as in \<open>x / n\<close> for a float \<open>x\<close> and an
  int \<open>n\<close>: the nearest double, or \<open>OverflowError\<close>.\<close>

definition float_of_int :: "int \<Rightarrow> error + pyfloat" where
  "float_of_int n =
     (case to_double (real_of_int n) of Finite r \<Rightarrow> Inr (Finite r) | _ \<Rightarrow> Inl OverflowError)"

text \<open>\<open>int(x)\<close> on a float.\<close>

definition int_of_float :: "pyfloat \<Rightarrow> error + int" where
  "int_of_float x =
     (case x of
        Finite r \<Rightarrow> Inr (py_int r)
      | NaN \<Rightarrow> Inl ValueError
      | _ \<Rightarrow> Inl OverflowError)"

text \<open>\<open>seconds * 1000 / chunk_ms\<close> for a float \<open>seconds\<close> and an int \<open>chunk_ms\<close>: the
  product is rounded, the int is converted, the quotient is rounded.\<close>

definition seconds_to_chunks :: "pyfloat \<Rightarrow> int \<Rightarrow> error + pyfloat" where
  "seconds_to_chunks seconds chunk =
     (case float_of_int chunk of
        Inl e \<Rightarrow> Inl e
      | Inr c \<Rightarrow> float_div (float_mul (as_double seconds) (Finite 1000)) c)"

text \<open>\<open>max(1, int(q))\<close> for a float \<open>q\<close> whose computation may have raised.\<close>

definition count_of :: "error + pyfloat \<Rightarrow> error + nat" where
  "count_of q =
     (case q of
        Inl e \<Rightarrow> Inl e
      | Inr x \<Rightarrow> (case int_of_float x of Inl e \<Rightarrow> Inl e | Inr n \<Rightarrow> Inr (nat (max 1 n))))"

section \<open>Runtime configuration (service.py, VoiceRuntimeConfig)\<close>

record VoiceRuntimeConfig =
  sample_rate :: int
  chunk_ms :: int
  pre_roll_ms :: int
  max_record_seconds :: pyfloat
  min_record_seconds :: pyfloat
  silence_threshold :: real
  silence_ms :: int

text \<open>
  The two durations are floats that enter float arithmetic. The silence threshold is a float
  that is only compared with the loudness of a frame; it is kept as the real number it
  stands for.
\<close>

text \<open>\<open>frame_samples = int(cfg.sample_rate * cfg.chunk_ms / 1000)\<close>; the pipeline refuses
  to start when it is not positive.\<close>

definition frame_samples :: "VoiceRuntimeConfig \<Rightarrow> int" where
  "frame_samples cfg = py_int (real_of_int (sample_rate cfg * chunk_ms cfg) / 1000)"

text \<open>\<open>pre_roll_frames = max(1, int(cfg.pre_roll_ms / cfg.chunk_ms))\<close>\<close>

definition pre_roll_frames :: "VoiceRuntimeConfig \<Rightarrow> error + nat" where
  "pre_roll_frames cfg =
     map_sum id at_least_one (truediv (real_of_int (pre_roll_ms cfg)) (real_of_int (chunk_ms cfg)))"

text \<open>\<open>max_frames = max(1, int(cfg.max_record_seconds * 1000 / cfg.chunk_ms))\<close>\<close>

definition max_frames :: "VoiceRuntimeConfig \<Rightarrow> error + nat" where
  "max_frames cfg = count_of (seconds_to_chunks (max_record_seconds cfg) (chunk_ms cfg))"

text \<open>\<open>min_frames = max(1, int(cfg.min_record_seconds * 1000 / cfg.chunk_ms))\<close>\<close>

definition min_frames :: "VoiceRuntimeConfig \<Rightarrow> error + nat" where
  "min_frames cfg = count_of (seconds_to_chunks (min_record_seconds cfg) (chunk_ms cfg))"

text \<open>\<open>silence_limit = max(1, int(cfg.silence_ms / cfg.chunk_ms))\<close>\<close>

definition silence_limit :: "VoiceRuntimeConfig \<Rightarrow> error + nat" where
  "silence_limit cfg =
     map_sum id at_least_one (truediv (real_of_int (silence_ms cfg)) (real_of_int (chunk_ms cfg)))"

section \<open>The pre-roll ring buffer (\<open>deque(maxlen=pre_roll_frames)\<close>)\<close>

text \<open>
  \<open>ring.append(frame)\<close> on a bounded deque: a deque of capacity 0 stays empty, a full one
  drops its oldest (leftmost) element first. \<open>list(ring)\<close> is the contents, oldest first, so
  the deque is modelled by that list.
\<close>

definition ring_append :: "nat \<Rightarrow> 'f list \<Rightarrow> 'f \<Rightarrow> 'f list" where
  "ring_append maxlen ring frame =
     (if maxlen = 0 then ring
      else if length ring = maxlen then tl ring @ [frame]
      else ring @ [frame])"

text \<open>The buffer after a sequence of appends to the empty deque.\<close>

definition ring_pushes :: "nat \<Rightarrow> 'f list \<Rightarrow> 'f list" where
  "ring_pushes maxlen frames = foldl (ring_append maxlen) [] frames"

section \<open>The utterance recorder (service.py, \<open>_record_utterance\<close>)\<close>

text \<open>
  The queue is filled by the audio callback while the recorder reads it. What the recorder
  sees of it is the outcome of each \<open>q.get(timeout=...)\<close>, in order: \<open>Some frame\<close>, or
  \<open>None\<close> when the wait timed out (\<open>queue.Empty\<close>). The end of the list stands for a
  queue that delivers nothing more. The loudness \<open>_rms\<close> of a frame is a floating-point
  computation over its samples and is a parameter \<open>rms\<close> of the model.

  \<open>record_loop\<close> is the \<open>for _ in range(max_frames)\<close> loop: its first argument counts
  the iterations left, \<open>frames\<close> and \<open>silence_frames\<close> are the loop's two variables. It
  returns the frames and what is left of the queue.
\<close>

fun record_loop ::
  "('f \<Rightarrow> real) \<Rightarrow> real \<Rightarrow> nat \<Rightarrow> nat \<Rightarrow> nat \<Rightarrow> 'f option list \<Rightarrow> 'f list \<Rightarrow> nat
     \<Rightarrow> 'f list \<times> 'f option list" where
  "record_loop rms thr minf slimit 0 q frames silence_frames = (frames, q)"
| "record_loop rms thr minf slimit (Suc n) [] frames silence_frames = (frames, [])"
| "record_loop rms thr minf slimit (Suc n) (None # q) frames silence_frames = (frames, q)"
| "record_loop rms thr minf slimit (Suc n) (Some frame # q) frames silence_frames =
     (let frames' = frames @ [frame];
          silence_frames' = (if rms frame < thr then silence_frames + 1 else 0)
      in if minf \<le> length frames' \<and> slimit \<le> silence_frames' then (frames', q)
         else record_loop rms thr minf slimit n q frames' silence_frames')"

definition record_utterance ::
  "('f \<Rightarrow> real) \<Rightarrow> VoiceRuntimeConfig \<Rightarrow> 'f option list \<Rightarrow> error + ('f list \<times> 'f option list)" where
  "record_utterance rms cfg q =
     (case max_frames cfg of
        Inl e \<Rightarrow> Inl e
      | Inr maxf \<Rightarrow>
          (case min_frames cfg of
             Inl e \<Rightarrow> Inl e
           | Inr minf \<Rightarrow>
               (case silence_limit cfg of
                  Inl e \<Rightarrow> Inl e
                | Inr slimit \<Rightarrow>
                    Inr (record_loop rms (silence_threshold cfg) minf slimit maxf q [] 0))))"

section \<open>The wake-word gate (wakeword.py)\<close>

subsection \<open>Keyword normalisation\<close>

text \<open>
  A Python \<open>str\<close> is a sequence of code points; the model covers the code points below 256,
  one \<open>char\<close> each. \<open>str.strip()\<close> removes the characters for which \<open>str.isspace\<close>
  holds: 9 to 13, 28 to 32, 133 and 160 in that range. \<open>str.lower()\<close> maps \<open>A\<close> to \<open>Z\<close>
  and the capital letters 192 to 222 (not the multiplication sign 215) to the code point 32
  higher and leaves every other character of the range alone.
\<close>

definition isspace :: "char \<Rightarrow> bool" where
  "isspace c =
     (let n = (of_char c :: nat)
      in (9 \<le> n \<and> n \<le> 13) \<or> (28 \<le> n \<and> n \<le> 32) \<or> n = 133 \<or> n = 160)"

definition strip :: "string \<Rightarrow> string" where
  "strip s = rev (dropWhile isspace (rev (dropWhile isspace s)))"

definition lower_char :: "char \<Rightarrow> char" where
  "lower_char c =
     (let n = (of_char c :: nat)
      in if (65 \<le> n \<and> n \<le> 90) \<or> (192 \<le> n \<and> n \<le> 222 \<and> n \<noteq> 215)
         then char_of (n + 32) else c)"

definition lower :: "string \<Rightarrow> string" where
  "lower s = map lower_char s"

text \<open>\<open>s.replace("_", " ")\<close>: both strings have length one, so this is a character map.\<close>

definition underscore_to_space :: "char \<Rightarrow> char" where
  "underscore_to_space c = (if c = CHR ''_'' then CHR '' '' else c)"

definition replace_underscores :: "string \<Rightarrow> string" where
  "replace_underscores s = map underscore_to_space s"

text \<open>\<open>_normalize_keyword(name) = name.strip().lower().replace("_", " ")\<close>\<close>

definition normalize_keyword :: "string \<Rightarrow> string" where
  "normalize_keyword name = replace_underscores (lower (strip name))"

text \<open>A label whose trimmed form neither begins nor ends with an underscore (used to state
  where normalisation is stable).\<close>

definition no_edge_underscore :: "string \<Rightarrow> bool" where
  "no_edge_underscore name =
     (strip name = [] \<or> (hd (strip name) \<noteq> CHR ''_'' \<and> last (strip name) \<noteq> CHR ''_''))"

subsection \<open>Predictions and the detector\<close>

text \<open>
  \<open>model.predict\<close> is an external capability. Its result is either a \<open>dict\<close> from
  keyword to score or something else; a dict is kept as the list of its items in iteration
  (insertion) order, whose keys are distinct.
\<close>

datatype prediction = NotADict | Dict "(string \<times> real) list"

text \<open>\<open>predictions.get(key, default)\<close>\<close>

definition dict_get :: "(string \<times> real) list \<Rightarrow> string \<Rightarrow> real \<Rightarrow> real" where
  "dict_get predictions key dflt =
     (case map_of predictions key of None \<Rightarrow> dflt | Some score \<Rightarrow> score)"

record WakeWordConfig =
  wake_word :: string
  threshold :: real
  cooldown_s :: real

record WakeWordDetector =
  config :: WakeWordConfig
  last_trigger :: real

text \<open>\<open>WakeWordDetector.__init__\<close> sets \<open>last_trigger = 0.0\<close>.\<close>

definition new_detector :: "WakeWordConfig \<Rightarrow> WakeWordDetector" where
  "new_detector c = \<lparr>config = c, last_trigger = 0\<rparr>"

text \<open>
  \<open>_target_keywords\<close>. The dict comprehension
  \<open>{_normalize_keyword(k): k for k in predictions.keys()}\<close> stores the keys in iteration
  order, a later key replacing an earlier one with the same normalised form; looking the
  reversed item list up finds that last key.
\<close>

definition normalized_keys :: "(string \<times> real) list \<Rightarrow> (string \<times> string) list" where
  "normalized_keys predictions = map (\<lambda>k. (normalize_keyword k, k)) (map fst predictions)"

definition target_keywords :: "WakeWordDetector \<Rightarrow> (string \<times> real) list \<Rightarrow> string list" where
  "target_keywords self predictions =
     (if predictions = [] then []
      else let normalized_target = normalize_keyword (wake_word (config self))
           in (case map_of (rev (normalized_keys predictions)) normalized_target of
                 Some k \<Rightarrow> [k]
               | None \<Rightarrow> map fst predictions))"

text \<open>
  The \<open>for key in ...\<close> loop of \<open>detect\<close>: the key at which the loop returns \<open>True\<close>
  (the one it logs), or \<open>None\<close> when it runs to its end.
\<close>

fun scan_keywords :: "real \<Rightarrow> (string \<times> real) list \<Rightarrow> string list \<Rightarrow> string option" where
  "scan_keywords thr predictions [] = None"
| "scan_keywords thr predictions (key # keys) =
     (let score = dict_get predictions key 0
      in if thr \<le> score then Some key else scan_keywords thr predictions keys)"

text \<open>
  \<open>detect\<close>, given what \<open>model.predict(pcm_frame)\<close> returned and what \<open>time.time()\<close>
  reads. It returns its result and the detector afterwards.
\<close>

definition detect :: "WakeWordDetector \<Rightarrow> prediction \<Rightarrow> real \<Rightarrow> bool \<times> WakeWordDetector" where
  "detect self predictions now =
     (case predictions of
        NotADict \<Rightarrow> (False, self)
      | Dict ps \<Rightarrow>
          if now - last_trigger self < cooldown_s (config self) then (False, self)
          else (case scan_keywords (threshold (config self)) ps (target_keywords self ps) of
                  Some key \<Rightarrow> (True, self\<lparr>last_trigger := now\<rparr>)
                | None \<Rightarrow> (False, self)))"

text \<open>Successive calls of \<open>detect\<close> on one detector, each with its prediction and its
  clock reading; the results in order and the detector after the last call.\<close>

fun detect_calls ::
  "WakeWordDetector \<Rightarrow> (prediction \<times> real) list \<Rightarrow> bool list \<times> WakeWordDetector" where
  "detect_calls self [] = ([], self)"
| "detect_calls self ((predictions, now) # calls) =
     (let (result, self') = detect self predictions now;
          (results, self'') = detect_calls self' calls
      in (result # results, self''))"

section \<open>The pipeline loop (service.py, \<open>_run_blocking\<close>)\<close>

text \<open>
  One pass through the body of \<open>while self._running\<close>, up to the point where the utterance
  is handed to \<open>_write_wav\<close>. The loop's own state is the ring buffer and the detector; the
  speaking flag is written by the handler only and is read here. The result is the state,
  what is left of the queue, and the utterance when the gate triggered. An exception of the
  recorder leaves the loop.
\<close>

definition loop_iteration ::
  "('f \<Rightarrow> real) \<Rightarrow> ('f \<Rightarrow> prediction) \<Rightarrow> VoiceRuntimeConfig \<Rightarrow> nat \<Rightarrow> real \<Rightarrow> bool
     \<Rightarrow> 'f list \<times> WakeWordDetector \<Rightarrow> 'f option list
     \<Rightarrow> error + (('f list \<times> WakeWordDetector) \<times> 'f option list \<times> 'f list option)" where
  "loop_iteration rms predict cfg maxlen now speaking st q =
     (case q of
        [] \<Rightarrow> Inr (st, [], None)
      | None # q' \<Rightarrow> Inr (st, q', None)
      | Some frame # q' \<Rightarrow>
          if speaking then Inr (st, q', None)
          else
            (let ring = ring_append maxlen (fst st) frame;
                 (triggered, detector) = detect (snd st) (predict frame) now
             in if triggered
                then (case record_utterance rms cfg q' of
                        Inl e \<Rightarrow> Inl e
                      | Inr (recorded, q'') \<Rightarrow> Inr ((ring, detector), q'', Some (ring @ recorded)))
                else Inr ((ring, detector), q', None)))"

section \<open>The utterance handler (service.py, \<open>_handle_utterance\<close>)\<close>

text \<open>
  The handler calls four capabilities: transcription, the agent, synthesis and playback.
  Each either returns or raises; what each does is a parameter of the model. The handler's
  state is the speaking flag and the list of what it has done so far; each entry of the list
  holds, with the action, the value of the speaking flag at that moment, which is what the
  pipeline loop would read while the action runs.
\<close>

datatype failure = Raised string

datatype action =
    Transcribe string
  | ProcessDirect string
  | SetSpeaking bool
  | Speak string
  | PlayWav string

record capabilities =
  transcribe :: "string \<Rightarrow> failure + string"
  process_direct :: "string \<Rightarrow> failure + string option"
  speak :: "string \<Rightarrow> failure + string option"
  play_wav :: "string \<Rightarrow> failure + unit"

record service =
  speaking_flag :: bool
  actions :: "(action \<times> bool) list"

definition act :: "action \<Rightarrow> service \<Rightarrow> service" where
  "act a s = s\<lparr>actions := actions s @ [(a, speaking_flag s)]\<rparr>"

text \<open>\<open>self._speaking = b\<close>: the flag is stored, and the entry shows the flag after the
  assignment.\<close>

definition set_speaking :: "bool \<Rightarrow> service \<Rightarrow> service" where
  "set_speaking b s = act (SetSpeaking b) (s\<lparr>speaking_flag := b\<rparr>)"

text \<open>The body of the \<open>try\<close>: synthesis, then playback when synthesis gave a path.\<close>

definition speak_and_play :: "capabilities \<Rightarrow> string \<Rightarrow> service \<Rightarrow> (failure + unit) \<times> service" where
  "speak_and_play env response s =
     (let s1 = act (Speak response) s
      in (case speak env response of
            Inl e \<Rightarrow> (Inl e, s1)
          | Inr None \<Rightarrow> (Inr (), s1)
          | Inr (Some tts_path) \<Rightarrow>
              (let s2 = act (PlayWav tts_path) s1
               in (case play_wav env tts_path of
                     Inl e \<Rightarrow> (Inl e, s2)
                   | Inr u \<Rightarrow> (Inr (), s2)))))"

text \<open>\<open>try: ... finally: self._speaking = False\<close>: the flag is cleared whatever the body
  did, and the body's result (a return or the exception) is passed on.\<close>

definition speak_finally :: "capabilities \<Rightarrow> string \<Rightarrow> service \<Rightarrow> (failure + unit) \<times> service" where
  "speak_finally env response s =
     (let (result, s') = speak_and_play env response s
      in (result, set_speaking False s'))"

definition handle_utterance :: "capabilities \<Rightarrow> string \<Rightarrow> service \<Rightarrow> (failure + unit) \<times> service" where
  "handle_utterance env audio_path s =
     (let s1 = act (Transcribe audio_path) s
      in (case transcribe env audio_path of
            Inl e \<Rightarrow> (Inl e, s1)
          | Inr text \<Rightarrow>
              if text = [] then (Inr (), s1)
              else
                (let s2 = act (ProcessDirect text) s1
                 in (case process_direct env text of
                       Inl e \<Rightarrow> (Inl e, s2)
                     | Inr None \<Rightarrow> (Inr (), s2)
                     | Inr (Some response) \<Rightarrow>
                         if response = [] then (Inr (), s2)
                         else speak_finally env response (set_speaking True s2)))))"

section \<open>Properties of the derived limits\<close>

lemma at_least_one_floor: "int (at_least_one x) = max 1 \<lfloor>x\<rfloor>"
  unfolding at_least_one_def py_int_def
  by (simp add: max_def)

lemma at_least_one_pos: "0 < at_least_one x"
  unfolding at_least_one_def by simp

lemma at_least_one_nat: "at_least_one x = nat (max 1 \<lfloor>x\<rfloor>)"
  using at_least_one_floor [of x] by linarith

lemma pre_roll_frames_eq:
  "chunk_ms cfg \<noteq> 0 \<Longrightarrow>
     pre_roll_frames cfg = Inr (at_least_one (real_of_int (pre_roll_ms cfg) / real_of_int (chunk_ms cfg)))"
  by (simp add: pre_roll_frames_def truediv_def)

lemma silence_limit_eq:
  "chunk_ms cfg \<noteq> 0 \<Longrightarrow>
     silence_limit cfg = Inr (at_least_one (real_of_int (silence_ms cfg) / real_of_int (chunk_ms cfg)))"
  by (simp add: silence_limit_def truediv_def)

lemma py_int_floor: "max 1 (py_int q) = max 1 \<lfloor>q\<rfloor>"
  by (simp add: py_int_def max_def)

lemma count_of_finite: "count_of (Inr (Finite q)) = Inr (nat (max 1 \<lfloor>q\<rfloor>))"
  by (simp add: count_of_def int_of_float_def py_int_floor)

lemma count_of_pos: "count_of r = Inr n \<Longrightarrow> 0 < n"
  by (auto simp: count_of_def split: sum.splits)

lemma silence_limit_pos: "silence_limit cfg = Inr n \<Longrightarrow> 0 < n"
  using at_least_one_pos by (auto simp: silence_limit_def truediv_def split: if_splits)

lemma to_double_zero: "to_double 0 = Finite 0"
  by (simp add: to_double_def)

lemma seconds_to_chunks_chunk:
  assumes "seconds_to_chunks seconds chunk = Inr q"
  shows "chunk \<noteq> 0"
proof
  assume "chunk = 0"
  then have "seconds_to_chunks seconds chunk = Inl ZeroDivisionError"
    by (simp add: seconds_to_chunks_def float_of_int_def to_double_zero)
  with assms show False by simp
qed

subsection \<open>Rounding of powers of two and of numbers beyond the range\<close>

lemma round_half_even_ge: "\<lfloor>y\<rfloor> \<le> round_half_even y"
  by (simp add: round_half_even_def Let_def)

lemma round_half_even_int: "round_half_even (of_int n) = n"
  by (simp add: round_half_even_def Let_def)

lemma bitlen_mono: "x \<le> y \<Longrightarrow> bitlen x \<le> bitlen y"
  by (simp add: bitlen_def floorlog_mono nat_mono)

lemma bitlen_power2: "bitlen (2 ^ n) = int n + 1"
  using bitlen_pow2 [of 1 n] by (simp add: bitlen_def compute_floorlog)

lemma scale2_power2: "scale2 (2 ^ n) (int k - int n) = 2 ^ k"
proof (cases "n \<le> k")
  case True
  then show ?thesis by (simp add: scale2_def nat_diff_distrib power_add [symmetric] flip: of_nat_diff)
next
  case False
  then have "n = k + (n - k)" by simp
  then have "(2::real) ^ n = 2 ^ k * 2 ^ (n - k)" by (metis power_add)
  moreover have "nat (int n - int k) = n - k" by simp
  ultimately show ?thesis using False by (simp add: scale2_def)
qed


lemma to_double_power2:
  assumes "n \<le> 1023"
  shows "to_double (2 ^ n) = Finite (2 ^ n)"
proof -
  have f: "\<lfloor>(2::real) ^ n\<rfloor> = 2 ^ n"
    by (metis floor_of_int of_int_numeral of_int_power)
  have a: "\<bar>(2::real) ^ n\<bar> = 2 ^ n" by simp
  have l: "ilog2 (2 ^ n) = int n"
    by (simp add: ilog2_def f bitlen_power2)
  have e: "max (- 1074) (ilog2 ((2::real) ^ n) - 52) = int n - 52"
    by (simp add: l)
  have s: "scale2 ((2::real) ^ n) (- (int n - 52)) = 2 ^ 52"
    using scale2_power2 [of n 52] by simp
  have "round_half_even ((2::real) ^ 52) = round_half_even (of_int (2 ^ 52))" by simp
  then have m: "round_half_even ((2::real) ^ 52) = 2 ^ 52" by (simp only: round_half_even_int)
  have r: "scale2 (of_int (2 ^ 52)) (int n - 52) = 2 ^ n"
    using scale2_power2 [of 52 n] by simp
  have b: "bitlen (2 ^ 52) + (int n - 52) = int n + 1"
    by (simp only: bitlen_power2)
  have "(2::real) ^ n \<noteq> 0" by simp
  then show ?thesis
    unfolding to_double_def Let_def a e s m r b using assms by simp
qed

lemma to_double_overflow:
  assumes "2 ^ 1024 \<le> \<bar>x\<bar>"
  shows "to_double x = (if x < 0 then NegInf else PosInf)"
proof -
  let ?a = "\<bar>x\<bar>"
  define b where "b = bitlen \<lfloor>?a\<rfloor>"
  define e where "e = b - 53"
  define m where "m = round_half_even (scale2 ?a (- e))"
  have one: "1 \<le> ?a" using assms by (smt (verit) one_le_power)
  have "(2::int) ^ 1024 \<le> \<lfloor>?a\<rfloor>" using assms by (simp add: le_floor_iff)
  then have "bitlen (2 ^ 1024) \<le> b" unfolding b_def by (rule bitlen_mono)
  moreover have "bitlen ((2::int) ^ 1024) = 1025" by (simp only: bitlen_power2)
  ultimately have b: "1025 \<le> b" by (simp only:)
  have pos: "0 < \<lfloor>?a\<rfloor>" using one by linarith
  have "2 ^ nat (b - 1) \<le> \<lfloor>?a\<rfloor>" using bitlen_bounds [OF pos] by (simp add: b_def)
  then have "real_of_int (2 ^ nat (b - 1)) \<le> ?a"
    by (meson le_floor_iff)
  then have lo: "(2::real) ^ nat (b - 1) \<le> ?a" by simp
  have "nat (b - 1) = 52 + nat e" using b by (simp add: e_def)
  then have "(2::real) ^ nat (b - 1) = 2 ^ 52 * 2 ^ nat e" by (simp add: power_add)
  with lo have "(2::real) ^ 52 \<le> ?a / 2 ^ nat e" by (simp add: pos_le_divide_eq)
  moreover have "scale2 ?a (- e) = ?a / 2 ^ nat e" using b by (simp add: scale2_def e_def)
  ultimately have "(2::real) ^ 52 \<le> scale2 ?a (- e)" by simp
  then have "(2::int) ^ 52 \<le> \<lfloor>scale2 ?a (- e)\<rfloor>" by (simp add: le_floor_iff)
  also have "\<dots> \<le> m" unfolding m_def by (rule round_half_even_ge)
  finally have "bitlen (2 ^ 52) \<le> bitlen m" by (rule bitlen_mono)
  moreover have "bitlen ((2::int) ^ 52) = 53" by (simp only: bitlen_power2)
  ultimately have "53 \<le> bitlen m" by (simp only:)
  then have over: "1024 < bitlen m + e" using b by (simp add: e_def)
  have il: "ilog2 ?a = b - 1" using one by (simp add: ilog2_def b_def)
  have ee: "max (- 1074) (ilog2 ?a - 52) = e" using b by (simp add: il e_def)
  have "x \<noteq> 0" using one by auto
  then show ?thesis
    unfolding to_double_def Let_def ee using over by (simp add: m_def)
qed

section \<open>Properties of the ring buffer\<close>

lemma ring_append_snoc:
  "ring_pushes maxlen (frames @ [frame]) = ring_append maxlen (ring_pushes maxlen frames) frame"
  by (simp add: ring_pushes_def)

lemma ring_pushes_drop:
  assumes "0 < maxlen"
  shows "ring_pushes maxlen frames = drop (length frames - maxlen) frames"
proof (induction frames rule: rev_induct)
  case Nil
  show ?case by (simp add: ring_pushes_def)
next
  case (snoc frame frames)
  show ?case
  proof (cases "maxlen \<le> length frames")
    case True
    then have "ring_pushes maxlen (frames @ [frame]) = tl (drop (length frames - maxlen) frames) @ [frame]"
      using assms by (simp add: ring_append_snoc snoc.IH ring_append_def)
    also have "\<dots> = drop (Suc (length frames - maxlen)) frames @ [frame]"
      by (simp add: drop_Suc tl_drop)
    also have "\<dots> = drop (length (frames @ [frame]) - maxlen) (frames @ [frame])"
      using True assms by (simp add: Suc_diff_le)
    finally show ?thesis .
  next
    case False
    then show ?thesis
      using assms by (simp add: ring_append_snoc snoc.IH ring_append_def)
  qed
qed

text \<open>
  Claim C3. For every sequence of pushed frames, the snapshot of the ring buffer is the whole
  sequence in its order when it is no longer than the capacity, and otherwise exactly its
  most recent capacity-many frames in order, where the capacity is
  \<open>max(1, floor(pre_roll_ms / chunk_ms))\<close>. The capacity is computed only where
  \<open>chunk_ms\<close> is not zero (the pipeline has refused to start otherwise).
\<close>

theorem ring_snapshot_most_recent:
  assumes "chunk_ms cfg \<noteq> 0"
  shows "\<exists>maxlen. pre_roll_frames cfg = Inr maxlen
           \<and> int maxlen = max 1 \<lfloor>real_of_int (pre_roll_ms cfg) / real_of_int (chunk_ms cfg)\<rfloor>
           \<and> ring_pushes maxlen frames =
               (if length frames \<le> maxlen then frames else drop (length frames - maxlen) frames)"
proof -
  define maxlen where "maxlen = at_least_one (real_of_int (pre_roll_ms cfg) / real_of_int (chunk_ms cfg))"
  have "pre_roll_frames cfg = Inr maxlen"
    using assms by (simp add: pre_roll_frames_eq maxlen_def)
  moreover have "int maxlen = max 1 \<lfloor>real_of_int (pre_roll_ms cfg) / real_of_int (chunk_ms cfg)\<rfloor>"
    by (simp only: maxlen_def at_least_one_floor)
  moreover have "0 < maxlen"
    using at_least_one_pos [of "real_of_int (pre_roll_ms cfg) / real_of_int (chunk_ms cfg)"]
    by (simp add: maxlen_def)
  then have "ring_pushes maxlen frames =
               (if length frames \<le> maxlen then frames else drop (length frames - maxlen) frames)"
    by (simp add: ring_pushes_drop)
  ultimately show ?thesis by blast
qed

theorem ring_snapshot_most_recent_witness:
  "chunk_ms \<lparr>sample_rate = 16000, chunk_ms = 80, pre_roll_ms = 250, max_record_seconds = Finite 10,
              min_record_seconds = Finite 1, silence_threshold = 500, silence_ms = 800\<rparr> \<noteq> 0
   \<and> pre_roll_frames \<lparr>sample_rate = 16000, chunk_ms = 80, pre_roll_ms = 250, max_record_seconds = Finite 10,
              min_record_seconds = Finite 1, silence_threshold = 500, silence_ms = 800\<rparr> = Inr 3
   \<and> ring_pushes 3 [1, 2, 3, 4, 5 :: nat] = [3, 4, 5]"
proof -
  let ?cfg = "\<lparr>sample_rate = 16000, chunk_ms = 80, pre_roll_ms = 250, max_record_seconds = Finite 10,
              min_record_seconds = Finite 1, silence_threshold = 500, silence_ms = 800\<rparr>"
  have h: "chunk_ms ?cfg \<noteq> 0" by simp
  have p: "pre_roll_frames ?cfg = Inr 3"
    by (simp add: pre_roll_frames_def truediv_def at_least_one_def py_int_def)
  from ring_snapshot_most_recent [OF h, of "[1, 2, 3, 4, 5 :: nat]"] p
  have "ring_pushes 3 [1, 2, 3, 4, 5 :: nat] = [3, 4, 5]" by simp
  with h p show ?thesis by blast
qed

section \<open>Properties of the pipeline loop\<close>

text \<open>
  Claim C1 says that a frame captured while the speaking flag is set is still appended to the
  ring buffer. In the source the test \<open>if self._speaking: continue\<close> comes before
  \<open>ring.append(frame)\<close>: with the flag set, a ring buffer of capacity 3 that holds two
  frames still holds exactly these two after a third frame was taken off the queue, where an
  append would have given all three. A frame is written here as the pair of its loudness and
  of what the model predicts for it, so that \<open>rms\<close> and \<open>predict\<close> are the two
  projections.
\<close>

theorem speaking_frame_not_appended_counterexample:
  "loop_iteration fst snd
     \<lparr>sample_rate = 16000, chunk_ms = 80, pre_roll_ms = 250, max_record_seconds = Finite 10,
      min_record_seconds = Finite 1, silence_threshold = 500, silence_ms = 800\<rparr>
     3 100 True
     ([(700, NotADict), (800, NotADict)],
      new_detector \<lparr>wake_word = ''hey nano'', threshold = 0.5, cooldown_s = 2\<rparr>)
     [Some (900, Dict [(''hey_nano'', 0.9)])]
   = Inr (([(700, NotADict), (800, NotADict)],
           new_detector \<lparr>wake_word = ''hey nano'', threshold = 0.5, cooldown_s = 2\<rparr>),
          [], None)
   \<and> ring_append 3 [(700, NotADict), (800, NotADict)] (900 :: real, Dict [(''hey_nano'', 0.9)])
       = [(700, NotADict), (800, NotADict), (900, Dict [(''hey_nano'', 0.9)])]
   \<and> [(700 :: real, NotADict), (800, NotADict)]
       \<noteq> [(700, NotADict), (800, NotADict), (900, Dict [(''hey_nano'', 0.9)])]"
  by (simp add: loop_iteration_def ring_append_def)

text \<open>
  Claim C1, amended. While the speaking flag is set, the pipeline loop skips each captured
  frame altogether: the frame is taken off the queue and is neither appended to the ring
  buffer, nor shown to the gate, nor buffered for an utterance. The ring buffer and the
  detector are what they were before.
\<close>

theorem speaking_discards_frame:
  assumes "speaking"
  shows "loop_iteration rms predict cfg maxlen now speaking (ring, detector) (Some frame # q)
         = Inr ((ring, detector), q, None)"
  using assms by (simp add: loop_iteration_def)

theorem speaking_discards_frame_witness:
  "True \<and>
   loop_iteration fst snd
     \<lparr>sample_rate = 16000, chunk_ms = 80, pre_roll_ms = 250, max_record_seconds = Finite 10,
      min_record_seconds = Finite 1, silence_threshold = 500, silence_ms = 800\<rparr>
     3 100 True
     ([(700, NotADict)], new_detector \<lparr>wake_word = ''hey nano'', threshold = 0.5, cooldown_s = 2\<rparr>)
     (Some (900, Dict [(''hey_nano'', 0.9)]) # [Some (100, NotADict)])
   = Inr (([(700, NotADict)],
           new_detector \<lparr>wake_word = ''hey nano'', threshold = 0.5, cooldown_s = 2\<rparr>),
          [Some (100, NotADict)], None)"
  using speaking_discards_frame [of True fst snd _ 3 100 "[(700, NotADict)]" _
          "(900, Dict [(''hey_nano'', 0.9)])" "[Some (100, NotADict)]"]
  by simp

text \<open>With the flag clear, the frame is appended before the gate sees it.\<close>

lemma listening_appends_frame:
  assumes "\<not> speaking"
    and "loop_iteration rms predict cfg maxlen now speaking (ring, detector) (Some frame # q)
         = Inr ((ring', detector'), q', utterance)"
  shows "ring' = ring_append maxlen ring frame"
  using assms by (auto simp: loop_iteration_def Let_def split: prod.splits if_splits sum.splits)

section \<open>Properties of the recorder\<close>

lemma record_loop_length:
  "length (fst (record_loop rms thr minf slimit n q frames sil)) \<le> length frames + n"
  by (induction rms thr minf slimit n q frames sil rule: record_loop.induct) (auto simp: Let_def)

lemma record_loop_grows:
  "length frames \<le> length (fst (record_loop rms thr minf slimit n q frames sil))"
proof (induction n arbitrary: q frames sil)
  case 0
  show ?case by simp
next
  case (Suc n)
  show ?case
  proof (cases q)
    case Nil
    then show ?thesis by simp
  next
    case (Cons x q')
    show ?thesis
    proof (cases x)
      case None
      with Cons show ?thesis by simp
    next
      case (Some f)
      have "length (frames @ [f]) \<le> length (fst (record_loop rms thr minf slimit n q' (frames @ [f])
              (if rms f < thr then sil + 1 else 0)))"
        by (rule Suc.IH)
      with Cons Some show ?thesis by (simp add: Let_def)
    qed
  qed
qed

lemma record_loop_empty:
  assumes "fst (record_loop rms thr minf slimit n q [] 0) = []" "0 < n"
  shows "q = [] \<or> hd q = None"
proof (cases q)
  case Nil
  then show ?thesis by simp
next
  case (Cons x q')
  show ?thesis
  proof (cases x)
    case None
    with Cons show ?thesis by simp
  next
    case (Some f)
    obtain m where n: "n = Suc m" using assms(2) by (cases n) auto
    have "length [f] \<le> length (fst (record_loop rms thr minf slimit m q' [f] (if rms f < thr then 1 else 0)))"
      by (rule record_loop_grows)
    with assms(1) Cons Some n show ?thesis by (simp add: Let_def split: if_splits)
  qed
qed

lemma record_loop_loud:
  assumes "\<forall>f\<in>set fs. thr \<le> rms f" "0 < slimit"
  shows "record_loop rms thr minf slimit (length fs + n) (map Some fs @ rest) frames sil =
         record_loop rms thr minf slimit n rest (frames @ fs) (if fs = [] then sil else 0)"
  using assms
proof (induction fs arbitrary: frames sil)
  case Nil
  then show ?case by simp
next
  case (Cons f fs)
  then show ?case by (simp add: Let_def)
qed

lemma record_loop_quiet:
  assumes "\<forall>f\<in>set fs. rms f < thr" "sil + length fs = slimit" "fs \<noteq> []" "minf \<le> length frames + length fs"
  shows "record_loop rms thr minf slimit (length fs + n) (map Some fs @ rest) frames sil =
         (frames @ fs, rest)"
  using assms
proof (induction fs arbitrary: frames sil)
  case Nil
  then show ?case by simp
next
  case (Cons f fs)
  show ?case
  proof (cases "fs = []")
    case True
    with Cons.prems show ?thesis by (simp add: Let_def)
  next
    case False
    have "record_loop rms thr minf slimit (length fs + n) (map Some fs @ rest) (frames @ [f]) (Suc sil)
          = ((frames @ [f]) @ fs, rest)"
      using Cons.prems False by (intro Cons.IH) auto
    moreover have "\<not> slimit \<le> Suc sil"
      using Cons.prems(2) False by (cases fs) auto
    ultimately show ?thesis using Cons.prems by (simp add: Let_def)
  qed
qed

lemma record_utterance_loop:
  "max_frames cfg = Inr maxf \<Longrightarrow> min_frames cfg = Inr minf \<Longrightarrow> silence_limit cfg = Inr slimit \<Longrightarrow>
     record_utterance rms cfg q = Inr (record_loop rms (silence_threshold cfg) minf slimit maxf q [] 0)"
  by (simp add: record_utterance_def)

text \<open>
  Claim C7. When the queue delivers frames that are all at or above the silence threshold,
  the recorder returns exactly \<open>max_frames\<close> frames, the first \<open>max_frames\<close> of the
  stream, where \<open>max_frames = max(1, floor(max_record_seconds * 1000 / chunk_ms))\<close>, the
  product and the quotient being the floats \<open>q\<close> that Python computes. The recorder
  computes its two other limits before it reads a frame; they are taken as computed.
\<close>

theorem record_all_loud_max_frames:
  assumes "seconds_to_chunks (max_record_seconds cfg) (chunk_ms cfg) = Inr (Finite q)"
    and "min_frames cfg = Inr minf" and "silence_limit cfg = Inr slimit"
    and "length fs = nat (max 1 \<lfloor>q\<rfloor>)"
    and "\<forall>f\<in>set fs. silence_threshold cfg \<le> rms f"
  shows "max_frames cfg = Inr (length fs)
         \<and> record_utterance rms cfg (map Some fs @ rest) = Inr (fs, rest)"
proof -
  have maxf: "max_frames cfg = Inr (length fs)"
    using assms(1,4) by (simp add: max_frames_def count_of_finite)
  have pos: "0 < slimit" using assms(3) by (rule silence_limit_pos)
  have "record_loop rms (silence_threshold cfg) minf slimit (length fs + 0) (map Some fs @ rest) [] 0
        = record_loop rms (silence_threshold cfg) minf slimit 0 rest ([] @ fs) (if fs = [] then 0 else 0)"
    using assms(5) pos by (rule record_loop_loud)
  then have "record_loop rms (silence_threshold cfg) minf slimit (length fs) (map Some fs @ rest) [] 0
        = (fs, rest)" by simp
  with maxf show ?thesis
    by (simp add: record_utterance_loop [OF maxf assms(2) assms(3)])
qed

theorem record_all_loud_max_frames_witness:
  "seconds_to_chunks (Finite 0.3) 100 = Inr (Finite 3)
   \<and> min_frames \<lparr>sample_rate = 16000, chunk_ms = 100, pre_roll_ms = 250, max_record_seconds = Finite 0.3,
              min_record_seconds = Finite 0.1, silence_threshold = 500, silence_ms = 100\<rparr> = Inr 1
   \<and> silence_limit \<lparr>sample_rate = 16000, chunk_ms = 100, pre_roll_ms = 250, max_record_seconds = Finite 0.3,
              min_record_seconds = Finite 0.1, silence_threshold = 500, silence_ms = 100\<rparr> = Inr 1
   \<and> max_frames \<lparr>sample_rate = 16000, chunk_ms = 100, pre_roll_ms = 250, max_record_seconds = Finite 0.3,
              min_record_seconds = Finite 0.1, silence_threshold = 500, silence_ms = 100\<rparr> = Inr 3
   \<and> record_utterance id
        \<lparr>sample_rate = 16000, chunk_ms = 100, pre_roll_ms = 250, max_record_seconds = Finite 0.3,
              min_record_seconds = Finite 0.1, silence_threshold = 500, silence_ms = 100\<rparr>
        (map Some [900, 500, 700] @ [Some 800, None]) = Inr ([900, 500, 700], [Some 800, None])"
proof -
  let ?cfg = "\<lparr>sample_rate = 16000, chunk_ms = 100, pre_roll_ms = 250, max_record_seconds = Finite 0.3,
              min_record_seconds = Finite 0.1, silence_threshold = 500, silence_ms = 100\<rparr>"
  have q: "seconds_to_chunks (Finite 0.3) 100 = Inr (Finite 3)" by code_simp
  have h1: "seconds_to_chunks (max_record_seconds ?cfg) (chunk_ms ?cfg) = Inr (Finite 3)"
    using q by simp
  have h2: "min_frames ?cfg = Inr 1" by code_simp
  have h3: "silence_limit ?cfg = Inr 1" by code_simp
  have h4: "length [900, 500, 700 :: real] = nat (max 1 \<lfloor>3 :: real\<rfloor>)" by simp
  have h5: "\<forall>f\<in>set [900, 500, 700 :: real]. silence_threshold ?cfg \<le> id f" by simp
  from record_all_loud_max_frames [OF h1 h2 h3 h4 h5, of "[Some 800, None]"] q h2 h3
  show ?thesis by (simp add: id_def)
qed

text \<open>
  Claim C2 says that \<open>min_frames - 1\<close> loud frames, with \<open>silence_frames\<close> quiet frames
  after the frame that reaches \<open>min_frames\<close>, make the recorder return
  \<open>min_frames + silence_frames\<close> frames. It leaves the frame number \<open>min_frames\<close> open.
  When that frame is quiet too, the silence counter already runs from it: with
  \<open>min_frames = 2\<close> and a silence limit of 2, one loud frame followed by quiet frames
  gives 3 frames, not 4.
\<close>

theorem record_silence_counterexample:
  "min_frames \<lparr>sample_rate = 16000, chunk_ms = 100, pre_roll_ms = 250, max_record_seconds = Finite 1,
              min_record_seconds = Finite 0.2, silence_threshold = 500, silence_ms = 200\<rparr> = Inr 2
   \<and> silence_limit \<lparr>sample_rate = 16000, chunk_ms = 100, pre_roll_ms = 250, max_record_seconds = Finite 1,
              min_record_seconds = Finite 0.2, silence_threshold = 500, silence_ms = 200\<rparr> = Inr 2
   \<and> max_frames \<lparr>sample_rate = 16000, chunk_ms = 100, pre_roll_ms = 250, max_record_seconds = Finite 1,
              min_record_seconds = Finite 0.2, silence_threshold = 500, silence_ms = 200\<rparr> = Inr 10
   \<and> record_utterance id
        \<lparr>sample_rate = 16000, chunk_ms = 100, pre_roll_ms = 250, max_record_seconds = Finite 1,
              min_record_seconds = Finite 0.2, silence_threshold = 500, silence_ms = 200\<rparr>
        [Some 900, Some 100, Some 100, Some 100, Some 100] = Inr ([900, 100, 100], [Some 100, Some 100])
   \<and> length [900, 100, 100 :: real] \<noteq> 2 + 2"
  by code_simp

text \<open>
  Claim C2, amended. When the first \<open>min_frames\<close> frames are at or above the silence
  threshold and the \<open>silence_frames\<close> frames right after them are below it, where
  \<open>silence_frames\<close> is the consecutive-silence limit and
  \<open>min_frames + silence_frames \<le> max_frames\<close>, the recorder returns exactly these
  \<open>min_frames + silence_frames\<close> frames.
\<close>

theorem record_stops_after_silence:
  assumes "min_frames cfg = Inr minf" and "silence_limit cfg = Inr slimit"
    and "max_frames cfg = Inr maxf" and "minf + slimit \<le> maxf"
    and "length loud = minf" and "\<forall>f\<in>set loud. silence_threshold cfg \<le> rms f"
    and "length quiet = slimit" and "\<forall>f\<in>set quiet. rms f < silence_threshold cfg"
  shows "record_utterance rms cfg (map Some (loud @ quiet) @ rest) = Inr (loud @ quiet, rest)"
proof -
  have pos: "0 < slimit"
    using assms(2) by (rule silence_limit_pos)
  obtain n where n: "maxf = length loud + (length quiet + n)"
    using assms(4,5,7) by (metis add.assoc le_Suc_ex)
  have "record_loop rms (silence_threshold cfg) minf slimit maxf (map Some (loud @ quiet) @ rest) [] 0
        = record_loop rms (silence_threshold cfg) minf slimit (length loud + (length quiet + n))
            (map Some loud @ (map Some quiet @ rest)) [] 0"
    by (simp add: n)
  also have "\<dots> = record_loop rms (silence_threshold cfg) minf slimit (length quiet + n)
            (map Some quiet @ rest) ([] @ loud) (if loud = [] then 0 else 0)"
    using assms(6) pos by (rule record_loop_loud)
  also have "\<dots> = record_loop rms (silence_threshold cfg) minf slimit (length quiet + n)
            (map Some quiet @ rest) loud 0" by simp
  also have "\<dots> = (loud @ quiet, rest)"
    using assms(8) _ _ _
  proof (rule record_loop_quiet)
    show "0 + length quiet = slimit" using assms(7) by simp
    show "quiet \<noteq> []" using assms(7) pos by auto
    show "minf \<le> length loud + length quiet" using assms(5) by simp
  qed
  finally show ?thesis
    by (simp add: record_utterance_loop [OF assms(3) assms(1) assms(2)])
qed

theorem record_stops_after_silence_witness:
  "min_frames \<lparr>sample_rate = 16000, chunk_ms = 100, pre_roll_ms = 250, max_record_seconds = Finite 1,
              min_record_seconds = Finite 0.2, silence_threshold = 500, silence_ms = 200\<rparr> = Inr 2
   \<and> silence_limit \<lparr>sample_rate = 16000, chunk_ms = 100, pre_roll_ms = 250, max_record_seconds = Finite 1,
              min_record_seconds = Finite 0.2, silence_threshold = 500, silence_ms = 200\<rparr> = Inr 2
   \<and> max_frames \<lparr>sample_rate = 16000, chunk_ms = 100, pre_roll_ms = 250, max_record_seconds = Finite 1,
              min_record_seconds = Finite 0.2, silence_threshold = 500, silence_ms = 200\<rparr> = Inr 10
   \<and> record_utterance id
        \<lparr>sample_rate = 16000, chunk_ms = 100, pre_roll_ms = 250, max_record_seconds = Finite 1,
              min_record_seconds = Finite 0.2, silence_threshold = 500, silence_ms = 200\<rparr>
        (map Some ([900, 800] @ [100, 200]) @ [Some 100]) = Inr ([900, 800] @ [100, 200], [Some 100])"
proof -
  let ?cfg = "\<lparr>sample_rate = 16000, chunk_ms = 100, pre_roll_ms = 250, max_record_seconds = Finite 1,
              min_record_seconds = Finite 0.2, silence_threshold = 500, silence_ms = 200\<rparr>"
  have h1: "min_frames ?cfg = Inr 2" by code_simp
  have h2: "silence_limit ?cfg = Inr 2" by code_simp
  have h3: "max_frames ?cfg = Inr 10" by code_simp
  have h4: "(2::nat) + 2 \<le> 10" by simp
  have h5: "length [900, 800 :: real] = 2" by simp
  have h6: "\<forall>f\<in>set [900, 800 :: real]. silence_threshold ?cfg \<le> id f" by simp
  have h7: "length [100, 200 :: real] = 2" by simp
  have h8: "\<forall>f\<in>set [100, 200 :: real]. id f < silence_threshold ?cfg" by simp
  from record_stops_after_silence [OF h1 h2 h3 h4 h5 h6 h7 h8, of "[Some 100]"] h1 h2 h3
  show ?thesis by blast
qed

text \<open>
  Claim C10 says that for every runtime configuration the three limits are at least 1 and the
  recorder returns. A duration so large that its product with 1000 is beyond the floats
  makes \<open>int(...)\<close> raise \<open>OverflowError\<close>: with \<open>max_record_seconds = 2^1020\<close>, in a
  configuration that the pipeline starts with (\<open>frame_samples\<close> is 1280), \<open>max_frames\<close>
  is not computed and the recorder raises.
\<close>

theorem recorder_overflow_counterexample:
  "0 < frame_samples \<lparr>sample_rate = 16000, chunk_ms = 80, pre_roll_ms = 250,
        max_record_seconds = Finite (2 ^ 1020), min_record_seconds = Finite 1,
        silence_threshold = 500, silence_ms = 800\<rparr>
   \<and> max_frames \<lparr>sample_rate = 16000, chunk_ms = 80, pre_roll_ms = 250,
        max_record_seconds = Finite (2 ^ 1020), min_record_seconds = Finite 1,
        silence_threshold = 500, silence_ms = 800\<rparr> = Inl OverflowError
   \<and> record_utterance id \<lparr>sample_rate = 16000, chunk_ms = 80, pre_roll_ms = 250,
        max_record_seconds = Finite (2 ^ 1020), min_record_seconds = Finite 1,
        silence_threshold = 500, silence_ms = 800\<rparr> [Some 900, Some 100] = Inl OverflowError"
proof -
  let ?cfg = "\<lparr>sample_rate = 16000, chunk_ms = 80, pre_roll_ms = 250,
        max_record_seconds = Finite (2 ^ 1020), min_record_seconds = Finite 1,
        silence_threshold = 500, silence_ms = 800\<rparr>"
  have f: "0 < frame_samples ?cfg" by (simp add: frame_samples_def py_int_def)
  have a: "as_double (Finite (2 ^ 1020)) = Finite (2 ^ 1020)"
    unfolding as_double_def pyfloat.case by (rule to_double_power2) simp
  have "(2::real) ^ 1024 \<le> \<bar>2 ^ 1020 * 1000\<bar>" by simp
  then have "to_double (2 ^ 1020 * 1000) = (if (2::real) ^ 1020 * 1000 < 0 then NegInf else PosInf)"
    by (rule to_double_overflow)
  then have p: "float_mul (Finite (2 ^ 1020)) (Finite 1000) = PosInf" by simp
  have c: "float_of_int 80 = Inr (Finite 80)" by code_simp
  have "seconds_to_chunks (Finite (2 ^ 1020)) 80 = Inr PosInf"
    unfolding seconds_to_chunks_def a p c by simp
  then have m: "max_frames ?cfg = Inl OverflowError"
    by (simp add: max_frames_def count_of_def int_of_float_def)
  then have "record_utterance id ?cfg [Some 900, Some 100] = Inl OverflowError"
    by (simp add: record_utterance_def)
  with f m show ?thesis by blast
qed

text \<open>
  Claim C10, amended. For every runtime configuration in which
  \<open>max_record_seconds * 1000 / chunk_ms\<close> and \<open>min_record_seconds * 1000 / chunk_ms\<close>, as
  Python computes them, are finite floats (so \<open>chunk_ms\<close> is not zero and nothing has
  overflowed) and \<open>silence_ms\<close> is below \<open>2^53\<close> in size, degenerate values such as
  \<open>max_record_seconds = 0\<close>, \<open>min_record_seconds = 0\<close> or \<open>silence_ms < chunk_ms\<close>
  included, the recorder's \<open>max_frames\<close>, \<open>min_frames\<close> and silence limit are each at
  least 1, and the recorder returns, with between 0 and \<open>max_frames\<close> frames; it returns no
  frame only when its first wait on the queue brings none.
\<close>

theorem recorder_limits_and_bounds:
  assumes "seconds_to_chunks (max_record_seconds cfg) (chunk_ms cfg) = Inr (Finite a)"
    and "seconds_to_chunks (min_record_seconds cfg) (chunk_ms cfg) = Inr (Finite b)"
    and "\<bar>silence_ms cfg\<bar> < 2 ^ 53"
  shows "\<exists>maxf minf slimit frames q'.
           max_frames cfg = Inr maxf \<and> min_frames cfg = Inr minf \<and> silence_limit cfg = Inr slimit
           \<and> 1 \<le> maxf \<and> 1 \<le> minf \<and> 1 \<le> slimit
           \<and> record_utterance rms cfg q = Inr (frames, q')
           \<and> length frames \<le> maxf
           \<and> (frames = [] \<longrightarrow> q = [] \<or> hd q = None)"
proof -
  have c: "chunk_ms cfg \<noteq> 0" using assms(1) by (rule seconds_to_chunks_chunk)
  define maxf where "maxf = nat (max 1 \<lfloor>a\<rfloor>)"
  define minf where "minf = nat (max 1 \<lfloor>b\<rfloor>)"
  define slimit where "slimit = at_least_one (real_of_int (silence_ms cfg) / real_of_int (chunk_ms cfg))"
  define r where "r = record_loop rms (silence_threshold cfg) minf slimit maxf q [] 0"
  have 1: "max_frames cfg = Inr maxf" using assms(1) by (simp add: max_frames_def count_of_finite maxf_def)
  have 2: "min_frames cfg = Inr minf" using assms(2) by (simp add: min_frames_def count_of_finite minf_def)
  have 3: "silence_limit cfg = Inr slimit" using c by (simp add: silence_limit_eq slimit_def)
  have 4: "1 \<le> maxf" "1 \<le> minf" "1 \<le> slimit"
    by (simp_all add: maxf_def minf_def slimit_def at_least_one_pos Suc_le_eq)
  have 5: "record_utterance rms cfg q = Inr (fst r, snd r)"
    by (simp add: record_utterance_loop [OF 1 2 3] r_def)
  have 6: "length (fst r) \<le> maxf"
    using record_loop_length [of rms "silence_threshold cfg" minf slimit maxf q "[]" 0]
    by (simp add: r_def)
  have 7: "fst r = [] \<longrightarrow> q = [] \<or> hd q = None"
    using record_loop_empty [of rms "silence_threshold cfg" minf slimit maxf q] 4(1)
    by (simp add: r_def Suc_le_eq)
  from 1 2 3 4 5 6 7 show ?thesis by blast
qed

theorem recorder_limits_and_bounds_witness:
  "seconds_to_chunks (Finite 0) 80 = Inr (Finite 0)
   \<and> \<bar>10 :: int\<bar> < 2 ^ 53
   \<and> max_frames \<lparr>sample_rate = 16000, chunk_ms = 80, pre_roll_ms = 250, max_record_seconds = Finite 0,
              min_record_seconds = Finite 0, silence_threshold = 500, silence_ms = 10\<rparr> = Inr 1
   \<and> (\<exists>frames q'. record_utterance id
        \<lparr>sample_rate = 16000, chunk_ms = 80, pre_roll_ms = 250, max_record_seconds = Finite 0,
              min_record_seconds = Finite 0, silence_threshold = 500, silence_ms = 10\<rparr>
        [Some 900, Some 100] = Inr (frames, q') \<and> length frames \<le> 1)"
proof -
  let ?cfg = "\<lparr>sample_rate = 16000, chunk_ms = 80, pre_roll_ms = 250, max_record_seconds = Finite 0,
              min_record_seconds = Finite 0, silence_threshold = 500, silence_ms = 10\<rparr>"
  have z: "seconds_to_chunks (Finite 0) 80 = Inr (Finite 0)" by code_simp
  have h1: "seconds_to_chunks (max_record_seconds ?cfg) (chunk_ms ?cfg) = Inr (Finite 0)"
    using z by simp
  have h2: "seconds_to_chunks (min_record_seconds ?cfg) (chunk_ms ?cfg) = Inr (Finite 0)"
    using z by simp
  have h3: "\<bar>silence_ms ?cfg\<bar> < 2 ^ 53" by simp
  have m: "max_frames ?cfg = Inr 1" by code_simp
  from recorder_limits_and_bounds [OF h1 h2 h3, of id "[Some 900, Some 100]"] m
  have "\<exists>frames q'. record_utterance id ?cfg [Some 900, Some 100] = Inr (frames, q')
          \<and> length frames \<le> 1" by auto
  with z m show ?thesis by simp
qed

section \<open>Properties of keyword normalisation\<close>

lemma of_char_lower:
  "(of_char (lower_char c) :: nat) =
     (if (65 \<le> (of_char c :: nat) \<and> (of_char c :: nat) \<le> 90)
         \<or> (192 \<le> (of_char c :: nat) \<and> (of_char c :: nat) \<le> 222 \<and> (of_char c :: nat) \<noteq> 215)
      then of_char c + 32 else of_char c)"
  by (auto simp: lower_char_def Let_def)

lemma char_eq_nat: "c = d \<longleftrightarrow> (of_char c :: nat) = of_char d"
  by simp

lemma isspace_lower: "isspace (lower_char c) = isspace c"
  unfolding isspace_def Let_def of_char_lower by auto

lemma lower_char_idem: "lower_char (lower_char c) = lower_char c"
  unfolding char_eq_nat [of "lower_char (lower_char c)"] of_char_lower by auto

lemma of_char_underscore: "(of_char CHR ''_'' :: nat) = 95"
  by simp

lemma of_char_blank: "(of_char CHR '' '' :: nat) = 32"
  by simp

lemma lower_underscore: "lower_char c = CHR ''_'' \<longleftrightarrow> c = CHR ''_''"
  unfolding char_eq_nat [of _ "CHR ''_''"] of_char_lower of_char_underscore by auto

lemma lower_blank: "lower_char CHR '' '' = CHR '' ''"
  unfolding char_eq_nat [of _ "CHR '' ''"] of_char_lower of_char_blank by simp

lemma isspace_underscore: "\<not> isspace CHR ''_''"
  by (simp add: isspace_def)

lemma lower_replace_commute:
  "lower_char (underscore_to_space c) = underscore_to_space (lower_char c)"
  by (simp add: underscore_to_space_def lower_underscore lower_blank)

lemma replace_idem: "underscore_to_space (underscore_to_space c) = underscore_to_space c"
  by (simp add: underscore_to_space_def)

lemma strip_map:
  assumes "\<And>c. isspace (f c) = isspace c"
  shows "strip (map f s) = map f (strip s)"
proof -
  have "isspace \<circ> f = isspace" using assms by auto
  then show ?thesis by (simp add: strip_def dropWhile_map rev_map)
qed

lemma rev_drop_take:
  "rev (dropWhile P (rev d)) @ rev (takeWhile P (rev d)) = d"
  by (metis rev_append rev_rev_ident takeWhile_dropWhile_id)

lemma strip_decomp:
  "s = takeWhile isspace s @ strip s @ rev (takeWhile isspace (rev (dropWhile isspace s)))"
proof -
  have "strip s @ rev (takeWhile isspace (rev (dropWhile isspace s))) = dropWhile isspace s"
    unfolding strip_def by (rule rev_drop_take)
  then show ?thesis by simp
qed

lemma dropWhile_all: "\<forall>c\<in>set zs. P c \<Longrightarrow> dropWhile P zs = []"
  by simp

lemma dropWhile_none: "y \<noteq> [] \<Longrightarrow> \<not> P (hd y) \<Longrightarrow> dropWhile P y = y"
  by (cases y) auto

lemma strip_sandwich:
  assumes "\<forall>c\<in>set a. isspace c" and "\<forall>c\<in>set b. isspace c"
    and "y = [] \<or> (\<not> isspace (hd y) \<and> \<not> isspace (last y))"
  shows "strip (a @ y @ b) = y"
proof (cases "y = []")
  case True
  have "\<forall>c\<in>set (a @ b). isspace c" using assms(1,2) by auto
  then have 0: "dropWhile isspace (a @ b) = []" by (rule dropWhile_all)
  have "strip (a @ b) = []" by (simp only: strip_def 0 rev.simps dropWhile.simps)
  with True show ?thesis by simp
next
  case False
  with assms(3) have e: "\<not> isspace (hd y)" "\<not> isspace (last y)" by auto
  have "dropWhile isspace (a @ (y @ b)) = dropWhile isspace (y @ b)"
    using assms(1) by (intro dropWhile_append2) auto
  also have "\<dots> = y @ b" using False e(1) by (intro dropWhile_none) auto
  finally have 1: "dropWhile isspace (a @ y @ b) = y @ b" .
  have "dropWhile isspace (rev b @ rev y) = dropWhile isspace (rev y)"
    using assms(2) by (intro dropWhile_append2) auto
  also have "\<dots> = rev y" using False e(2) by (intro dropWhile_none) (auto simp: hd_rev)
  finally show ?thesis by (simp add: strip_def 1)
qed

lemma strip_edges:
  assumes "strip s \<noteq> []"
  shows "\<not> isspace (hd (strip s)) \<and> \<not> isspace (last (strip s))"
proof -
  let ?d = "dropWhile isspace s"
  have r: "dropWhile isspace (rev ?d) \<noteq> []" using assms by (simp add: strip_def)
  then have "\<not> isspace (hd (dropWhile isspace (rev ?d)))" by (rule hd_dropWhile)
  then have l: "\<not> isspace (last (strip s))" using r by (simp add: strip_def last_rev)
  have d: "strip s @ rev (takeWhile isspace (rev ?d)) = ?d"
    unfolding strip_def by (rule rev_drop_take)
  have "?d \<noteq> []"
  proof
    assume "?d = []"
    then have "dropWhile isspace (rev ?d) = []" by (simp only: rev.simps dropWhile.simps)
    with r show False by simp
  qed
  then have "\<not> isspace (hd ?d)" by (rule hd_dropWhile)
  moreover have "hd ?d = hd (strip s)" using assms d by (metis hd_append2)
  ultimately show ?thesis using l by simp
qed

lemma strip_surrounded:
  assumes "\<forall>c\<in>set a. isspace c" and "\<forall>c\<in>set b. isspace c"
  shows "strip (a @ s @ b) = strip s"
proof -
  let ?l = "takeWhile isspace s" and ?r = "rev (takeWhile isspace (rev (dropWhile isspace s)))"
  have l: "\<forall>c\<in>set (a @ ?l). isspace c" using assms(1) by (auto dest: set_takeWhileD)
  have r: "\<forall>c\<in>set (?r @ b). isspace c" using assms(2) by (auto dest: set_takeWhileD)
  have e: "strip s = [] \<or> (\<not> isspace (hd (strip s)) \<and> \<not> isspace (last (strip s)))"
    using strip_edges by blast
  have eq: "?l @ strip s @ ?r = s" by (rule strip_decomp [symmetric])
  have "(a @ ?l) @ strip s @ (?r @ b) = a @ (?l @ strip s @ ?r) @ b" by simp
  also have "\<dots> = a @ s @ b" by (simp only: eq)
  finally have "strip (a @ s @ b) = strip ((a @ ?l) @ strip s @ (?r @ b))" by (rule arg_cong [OF sym])
  also have "\<dots> = strip s" using l r e by (rule strip_sandwich)
  finally show ?thesis .
qed

lemma strip_fixed:
  assumes "y = [] \<or> (\<not> isspace (hd y) \<and> \<not> isspace (last y))"
  shows "strip y = y"
  using strip_sandwich [of "[]" "[]" y] assms by simp

lemma set_strip: "set (strip s) \<subseteq> set s"
  by (auto simp: strip_def dest!: set_dropWhileD)

lemma strip_lower: "strip (lower s) = lower (strip s)"
  unfolding lower_def by (rule strip_map) (rule isspace_lower)

lemma lower_replace: "lower (replace_underscores s) = replace_underscores (lower s)"
  by (simp add: lower_def replace_underscores_def lower_replace_commute)

lemma lower_lower: "lower (lower s) = lower s"
  by (simp add: lower_def lower_char_idem)

lemma replace_fixed:
  assumes "CHR ''_'' \<notin> set s"
  shows "replace_underscores s = s"
proof -
  have "map underscore_to_space s = map (\<lambda>c. c) s"
    using assms by (intro map_cong) (auto simp: underscore_to_space_def)
  then show ?thesis by (simp add: replace_underscores_def)
qed

lemma no_underscore_replaced: "CHR ''_'' \<notin> set (replace_underscores s)"
  by (auto simp: replace_underscores_def underscore_to_space_def)

lemma lower_normalize: "lower (normalize_keyword s) = normalize_keyword s"
  by (simp add: normalize_keyword_def lower_replace lower_lower)

lemma normalize_twice: "normalize_keyword (normalize_keyword s) = strip (normalize_keyword s)"
proof -
  let ?y = "normalize_keyword s"
  have "CHR ''_'' \<notin> set ?y"
    unfolding normalize_keyword_def by (rule no_underscore_replaced)
  then have "CHR ''_'' \<notin> set (strip ?y)" using set_strip [of ?y] by blast
  then have 1: "replace_underscores (strip ?y) = strip ?y" by (rule replace_fixed)
  have "normalize_keyword ?y = replace_underscores (strip (lower ?y))"
    by (simp only: normalize_keyword_def [of ?y] strip_lower)
  also have "\<dots> = replace_underscores (strip ?y)" by (simp only: lower_normalize)
  finally show ?thesis by (simp only: 1)
qed

lemma replace_strip:
  assumes "no_edge_underscore s"
  shows "strip (replace_underscores s) = replace_underscores (strip s)"
proof -
  let ?l = "takeWhile isspace s" and ?r = "rev (takeWhile isspace (rev (dropWhile isspace s)))"
  let ?x = "strip s"
  have l: "\<forall>c\<in>set ?l. isspace c" by (auto dest: set_takeWhileD)
  have r: "\<forall>c\<in>set ?r. isspace c" by (auto dest: set_takeWhileD)
  have "CHR ''_'' \<notin> set ?l" using l isspace_underscore by blast
  then have l': "replace_underscores ?l = ?l" by (rule replace_fixed)
  have "CHR ''_'' \<notin> set ?r" using r isspace_underscore by blast
  then have r': "replace_underscores ?r = ?r" by (rule replace_fixed)
  have e: "replace_underscores ?x = [] \<or>
           (\<not> isspace (hd (replace_underscores ?x)) \<and> \<not> isspace (last (replace_underscores ?x)))"
  proof (cases "?x = []")
    case True
    then show ?thesis by (simp add: replace_underscores_def)
  next
    case False
    then have "\<not> isspace (hd ?x)" "\<not> isspace (last ?x)" using strip_edges by blast+
    moreover have "hd ?x \<noteq> CHR ''_''" "last ?x \<noteq> CHR ''_''"
      using assms False by (auto simp: no_edge_underscore_def)
    ultimately have "\<not> isspace (underscore_to_space (hd ?x))" "\<not> isspace (underscore_to_space (last ?x))"
      by (simp_all add: underscore_to_space_def)
    with False show ?thesis by (simp add: replace_underscores_def hd_map last_map)
  qed
  have "replace_underscores s = replace_underscores (?l @ ?x @ ?r)"
    by (rule arg_cong [OF strip_decomp])
  also have "\<dots> = ?l @ replace_underscores ?x @ ?r"
    using l' r' by (simp add: replace_underscores_def)
  finally have "strip (replace_underscores s) = strip (?l @ replace_underscores ?x @ ?r)"
    by (rule arg_cong)
  also have "\<dots> = replace_underscores ?x" using l r e by (rule strip_sandwich)
  finally show ?thesis .
qed

lemma normalize_alt:
  "no_edge_underscore s \<Longrightarrow> normalize_keyword s = lower (strip (replace_underscores s))"
  by (simp add: normalize_keyword_def replace_strip lower_replace)

lemma normalize_fixed:
  assumes "no_edge_underscore s"
  shows "strip (normalize_keyword s) = normalize_keyword s"
proof -
  have "strip (normalize_keyword s) = strip (lower (strip (replace_underscores s)))"
    using assms by (simp only: normalize_alt)
  also have "\<dots> = lower (strip (strip (replace_underscores s)))" by (simp only: strip_lower)
  also have "strip (strip (replace_underscores s)) = strip (replace_underscores s)"
    using strip_edges by (intro strip_fixed) blast
  finally show ?thesis using assms by (simp only: normalize_alt)
qed

text \<open>
  Claim C5 says that normalising twice equals normalising once, and that labels differing only
  in underscores against spaces normalise alike. The source trims before it replaces
  underscores, so an underscore at the edge of the trimmed label becomes a space that only a
  second normalisation trims: \<open>"_a"\<close> gives \<open>" a"\<close> and then \<open>"a"\<close>, and \<open>"_a"\<close> and
  \<open>" a"\<close> give different keywords.
\<close>

theorem normalize_keyword_counterexample:
  "normalize_keyword ''_a'' = '' a''
   \<and> normalize_keyword (normalize_keyword ''_a'') = ''a''
   \<and> normalize_keyword (normalize_keyword ''_a'') \<noteq> normalize_keyword ''_a''
   \<and> replace_underscores ''_a'' = replace_underscores '' a''
   \<and> normalize_keyword ''_a'' \<noteq> normalize_keyword '' a''"
  by code_simp

text \<open>
  Claim C5, amended. Keyword normalisation is idempotent on every label whose trimmed form
  neither begins nor ends with an underscore. Two labels that differ only in case, or only in
  surrounding whitespace, always have the same normalised keyword; two labels that differ only
  in underscores against spaces have the same one when the trimmed form of neither begins or
  ends with an underscore. \<open>"Hey_Nano "\<close> and \<open>"hey nano"\<close> both give \<open>"hey nano"\<close>.
\<close>

theorem normalize_keyword_stable:
  "(no_edge_underscore name \<longrightarrow> normalize_keyword (normalize_keyword name) = normalize_keyword name)
   \<and> (lower s = lower t \<longrightarrow> normalize_keyword s = normalize_keyword t)
   \<and> ((\<forall>c\<in>set a \<union> set b. isspace c) \<longrightarrow> normalize_keyword (a @ label @ b) = normalize_keyword label)
   \<and> (replace_underscores u = replace_underscores v \<and> no_edge_underscore u \<and> no_edge_underscore v
        \<longrightarrow> normalize_keyword u = normalize_keyword v)
   \<and> normalize_keyword ''Hey_Nano '' = ''hey nano'' \<and> normalize_keyword ''hey nano'' = ''hey nano''"
proof -
  have 1: "normalize_keyword (normalize_keyword name) = normalize_keyword name" if "no_edge_underscore name"
    using that by (simp only: normalize_twice normalize_fixed)
  have 2: "normalize_keyword s = normalize_keyword t" if "lower s = lower t"
  proof -
    have "normalize_keyword s = replace_underscores (strip (lower s))"
      by (simp only: normalize_keyword_def strip_lower)
    also have "\<dots> = replace_underscores (strip (lower t))" by (simp only: that)
    finally show ?thesis by (simp only: normalize_keyword_def strip_lower)
  qed
  have 3: "normalize_keyword (a @ label @ b) = normalize_keyword label" if "\<forall>c\<in>set a \<union> set b. isspace c"
  proof -
    have "strip (a @ label @ b) = strip label" using that by (intro strip_surrounded) auto
    then show ?thesis by (simp only: normalize_keyword_def)
  qed
  have 4: "normalize_keyword u = normalize_keyword v"
    if "replace_underscores u = replace_underscores v" "no_edge_underscore u" "no_edge_underscore v"
    using that by (simp only: normalize_alt)
  have 5: "normalize_keyword ''Hey_Nano '' = ''hey nano''" by code_simp
  have 6: "normalize_keyword ''hey nano'' = ''hey nano''" by code_simp
  from 1 2 3 4 5 6 show ?thesis by blast
qed

theorem normalize_keyword_stable_witness:
  "no_edge_underscore ''hey_nano''
   \<and> normalize_keyword (normalize_keyword ''hey_nano'') = normalize_keyword ''hey_nano''
   \<and> lower ''Hey_Nano'' = lower ''hey_nano''
   \<and> normalize_keyword ''Hey_Nano'' = normalize_keyword ''hey_nano''
   \<and> isspace CHR '' ''
   \<and> normalize_keyword ('' '' @ ''hey nano'' @ ''  '') = normalize_keyword ''hey nano''
   \<and> replace_underscores ''hey_nano'' = replace_underscores ''hey nano''
   \<and> no_edge_underscore ''hey nano''
   \<and> normalize_keyword ''hey_nano'' = normalize_keyword ''hey nano''"
proof -
  have h1: "no_edge_underscore ''hey_nano''" by code_simp
  have h2: "lower ''Hey_Nano'' = lower ''hey_nano''" by code_simp
  have h3: "\<forall>c\<in>set '' '' \<union> set ''  ''. isspace c" by (simp add: isspace_def)
  have h4: "replace_underscores ''hey_nano'' = replace_underscores ''hey nano''" by code_simp
  have h5: "no_edge_underscore ''hey nano''" by code_simp
  have h6: "isspace CHR '' ''" by (simp add: isspace_def)
  from normalize_keyword_stable [of "''hey_nano''" "''Hey_Nano''" "''hey_nano''" "'' ''" "''  ''"
      "''hey nano''" "''hey_nano''" "''hey nano''"] h1 h2 h3 h4 h5 h6
  show ?thesis by blast
qed

section \<open>Properties of the wake-word gate\<close>

lemma detect_cases:
  "detect self predictions now =
     (if fst (detect self predictions now) then (True, self\<lparr>last_trigger := now\<rparr>) else (False, self))"
  by (simp add: detect_def split: prediction.splits option.splits)

lemma detect_config: "config (snd (detect self predictions now)) = config self"
  by (simp add: detect_def split: prediction.splits option.splits)

lemma detect_cooldown:
  "now - last_trigger self < cooldown_s (config self) \<Longrightarrow> detect self predictions now = (False, self)"
  by (simp add: detect_def split: prediction.splits)

lemma detect_true:
  assumes "fst (detect self predictions now)"
  shows "last_trigger (snd (detect self predictions now)) = now"
    and "last_trigger self + cooldown_s (config self) \<le> now"
  using assms by (auto simp: detect_def split: prediction.splits option.splits if_splits)

lemma detect_false: "\<not> fst (detect self predictions now) \<Longrightarrow> snd (detect self predictions now) = self"
  by (auto simp: detect_def split: prediction.splits option.splits if_splits)

lemma detect_calls_Cons:
  "detect_calls self ((p, now) # calls) =
     (fst (detect self p now) # fst (detect_calls (snd (detect self p now)) calls),
      snd (detect_calls (snd (detect self p now)) calls))"
  by (simp add: Let_def split: prod.splits)

lemma detect_calls_append:
  "detect_calls self (xs @ ys) =
     (fst (detect_calls self xs) @ fst (detect_calls (snd (detect_calls self xs)) ys),
      snd (detect_calls (snd (detect_calls self xs)) ys))"
proof (induction xs arbitrary: self)
  case Nil
  show ?case by simp
next
  case (Cons c xs)
  obtain p now where c: "c = (p, now)" by (cases c)
  show ?case
    by (simp only: c append_Cons detect_calls_Cons Cons.IH fst_conv snd_conv)
qed

lemma detect_calls_length: "length (fst (detect_calls self calls)) = length calls"
proof (induction calls arbitrary: self)
  case Nil
  show ?case by simp
next
  case (Cons c calls)
  obtain p now where c: "c = (p, now)" by (cases c)
  show ?case
    by (simp only: c detect_calls_Cons Cons.IH fst_conv length_Cons)
qed

lemma detect_calls_config: "config (snd (detect_calls self calls)) = config self"
proof (induction calls arbitrary: self)
  case Nil
  show ?case by simp
next
  case (Cons c calls)
  obtain p now where c: "c = (p, now)" by (cases c)
  show ?case
    by (simp only: c detect_calls_Cons Cons.IH snd_conv detect_config)
qed

lemma detect_calls_last_trigger:
  assumes "t \<le> last_trigger self"
    and "0 \<le> cooldown_s (config self) \<or> (\<forall>now\<in>snd ` set calls. t \<le> now)"
  shows "t \<le> last_trigger (snd (detect_calls self calls))"
  using assms
proof (induction calls arbitrary: self)
  case Nil
  then show ?case by simp
next
  case (Cons c calls)
  obtain p now where c: "c = (p, now)" by (cases c)
  let ?d = "snd (detect self p now)"
  have "t \<le> last_trigger ?d"
  proof (cases "fst (detect self p now)")
    case True
    then have "last_trigger ?d = now" "last_trigger self + cooldown_s (config self) \<le> now"
      by (rule detect_true)+
    with Cons.prems c show ?thesis by auto
  next
    case False
    then have "?d = self" by (rule detect_false)
    with Cons.prems show ?thesis by simp
  qed
  moreover have "0 \<le> cooldown_s (config ?d) \<or> (\<forall>now\<in>snd ` set calls. t \<le> now)"
    using Cons.prems(2) by (auto simp: detect_config)
  ultimately have "t \<le> last_trigger (snd (detect_calls ?d calls))" by (rule Cons.IH)
  then show ?case by (simp only: c detect_calls_Cons snd_conv)
qed

text \<open>
  Claim C4. Of two calls of \<open>detect\<close> at times \<open>t1\<close> and \<open>t2\<close>, the first of which
  returned true, the second returns false whenever \<open>t2 - t1 < cooldown_s\<close>, whatever the
  predictions of any call are; calls may lie before, between and after the two, as long as
  the cooldown is not negative or the clock does not read less than \<open>t1\<close> between them.
  And a call changes the detector only when it returns true, and then only by setting the
  last-trigger time to its clock reading.
\<close>

theorem cooldown_blocks_second_trigger:
  "(detect_calls self (before @ (p1, t1) # between @ (p2, t2) # later) = (results, self')
      \<and> results ! length before
      \<and> t2 - t1 < cooldown_s (config self)
      \<and> (0 \<le> cooldown_s (config self) \<or> (\<forall>now\<in>snd ` set between. t1 \<le> now))
    \<longrightarrow> \<not> results ! (length before + 1 + length between))
   \<and> detect self p now =
       (if fst (detect self p now) then (True, self\<lparr>last_trigger := now\<rparr>) else (False, self))"
proof (intro conjI impI)
  show "detect self p now =
       (if fst (detect self p now) then (True, self\<lparr>last_trigger := now\<rparr>) else (False, self))"
    by (rule detect_cases)
next
  assume a: "detect_calls self (before @ (p1, t1) # between @ (p2, t2) # later) = (results, self')
      \<and> results ! length before
      \<and> t2 - t1 < cooldown_s (config self)
      \<and> (0 \<le> cooldown_s (config self) \<or> (\<forall>now\<in>snd ` set between. t1 \<le> now))"
  define d0 where "d0 = snd (detect_calls self before)"
  define d1 where "d1 = snd (detect d0 p1 t1)"
  define d2 where "d2 = snd (detect_calls d1 between)"
  have cfg: "config d0 = config self" "config d1 = config self" "config d2 = config self"
    by (simp_all add: d0_def d1_def d2_def detect_calls_config detect_config)
  have res: "results = fst (detect_calls self before) @ fst (detect d0 p1 t1)
               # fst (detect_calls d1 between) @ fst (detect d2 p2 t2)
               # fst (detect_calls (snd (detect d2 p2 t2)) later)"
    using a by (simp add: detect_calls_append d0_def d1_def d2_def Let_def split: prod.splits)
  have first: "results ! length before = fst (detect d0 p1 t1)"
    by (simp add: res nth_append detect_calls_length)
  have second: "results ! (length before + 1 + length between) = fst (detect d2 p2 t2)"
    by (simp add: res nth_append detect_calls_length)
  have "fst (detect d0 p1 t1)" using a first by simp
  then have "last_trigger d1 = t1" unfolding d1_def by (rule detect_true)
  then have "t1 \<le> last_trigger d1" by simp
  moreover have "0 \<le> cooldown_s (config d1) \<or> (\<forall>now\<in>snd ` set between. t1 \<le> now)"
    using a cfg by simp
  ultimately have "t1 \<le> last_trigger d2" unfolding d2_def by (rule detect_calls_last_trigger)
  then have "t2 - last_trigger d2 < cooldown_s (config d2)" using a cfg by simp
  then have "detect d2 p2 t2 = (False, d2)" by (rule detect_cooldown)
  then have "\<not> fst (detect d2 p2 t2)" by simp
  then show "\<not> results ! (length before + 1 + length between)" unfolding second .
qed

theorem cooldown_blocks_second_trigger_witness:
  "detect_calls (new_detector \<lparr>wake_word = ''hey nano'', threshold = 0.5, cooldown_s = 2\<rparr>)
        ([] @ (Dict [(''hey_nano'', 0.9)], 100) # [(Dict [(''hey_nano'', 0.95)], 101)]
            @ (Dict [(''hey_nano'', 0.99)], 101.5) # [])
      = ([True, False, False],
         new_detector \<lparr>wake_word = ''hey nano'', threshold = 0.5, cooldown_s = 2\<rparr> \<lparr>last_trigger := 100\<rparr>)
   \<and> [True, False, False] ! length ([] :: (prediction \<times> real) list)
   \<and> (101.5 :: real) - 100
        < cooldown_s (config (new_detector \<lparr>wake_word = ''hey nano'', threshold = 0.5, cooldown_s = 2\<rparr>))
   \<and> 0 \<le> cooldown_s (config (new_detector \<lparr>wake_word = ''hey nano'', threshold = 0.5, cooldown_s = 2\<rparr>))
   \<and> \<not> [True, False, False] ! (length ([] :: (prediction \<times> real) list) + 1
            + length [(Dict [(''hey_nano'', 0.95)], 101 :: real)])"
proof -
  let ?d = "new_detector \<lparr>wake_word = ''hey nano'', threshold = 0.5, cooldown_s = 2\<rparr>"
  have h1: "detect_calls ?d
        ([] @ (Dict [(''hey_nano'', 0.9)], 100) # [(Dict [(''hey_nano'', 0.95)], 101)]
            @ (Dict [(''hey_nano'', 0.99)], 101.5) # [])
      = ([True, False, False], ?d\<lparr>last_trigger := 100\<rparr>)"
    by code_simp
  have h2: "[True, False, False] ! length ([] :: (prediction \<times> real) list)" by simp
  have h3: "(101.5 :: real) - 100 < cooldown_s (config ?d)" by (simp add: new_detector_def)
  have h4: "0 \<le> cooldown_s (config ?d)" by (simp add: new_detector_def)
  from cooldown_blocks_second_trigger [of ?d "[]" "Dict [(''hey_nano'', 0.9)]" 100
      "[(Dict [(''hey_nano'', 0.95)], 101)]" "Dict [(''hey_nano'', 0.99)]" "101.5" "[]"
      "[True, False, False]" "?d\<lparr>last_trigger := 100\<rparr>"] h1 h2 h3 h4
  have "\<not> [True, False, False] ! (length ([] :: (prediction \<times> real) list) + 1
            + length [(Dict [(''hey_nano'', 0.95)], 101 :: real)])" by blast
  with h1 h2 h3 h4 show ?thesis by blast
qed

lemma last_match:
  "map_of (rev (map (\<lambda>k. (f k, k)) ks)) t =
     (if filter (\<lambda>k. f k = t) ks = [] then None else Some (last (filter (\<lambda>k. f k = t) ks)))"
  by (induction ks rule: rev_induct) auto

lemma scan_keywords_find:
  "scan_keywords thr ps ks = find (\<lambda>k. thr \<le> dict_get ps k 0) ks"
  by (induction ks) (auto simp: Let_def)

lemma dict_get_item:
  "distinct (map fst ps) \<Longrightarrow> (k, v) \<in> set ps \<Longrightarrow> dict_get ps k d = v"
  by (simp add: dict_get_def)

lemma find_items:
  assumes "\<And>k v. (k, v) \<in> set qs \<Longrightarrow> score k = v"
  shows "find (\<lambda>k. thr \<le> score k) (map fst qs) = map_option fst (find (\<lambda>(k, v). thr \<le> v) qs)"
  using assms
proof (induction qs)
  case Nil
  show ?case by simp
next
  case (Cons q qs)
  obtain k v where q: "q = (k, v)" by (cases q)
  have "score k = v" using Cons.prems q by simp
  moreover have "find (\<lambda>k. thr \<le> score k) (map fst qs) = map_option fst (find (\<lambda>(k, v). thr \<le> v) qs)"
    using Cons.prems by (intro Cons.IH) simp
  ultimately show ?case by (simp add: q)
qed

lemma scan_all_items:
  assumes "distinct (map fst ps)"
  shows "scan_keywords thr ps (map fst ps) = map_option fst (find (\<lambda>(k, v). thr \<le> v) ps)"
  unfolding scan_keywords_find using assms by (intro find_items) (simp add: dict_get_item)

lemma target_keywords_choice:
  assumes "ps \<noteq> []"
  shows "target_keywords self ps =
     (let matching = filter (\<lambda>k. normalize_keyword k = normalize_keyword (wake_word (config self)))
                       (map fst ps)
      in if matching \<noteq> [] then [last matching] else map fst ps)"
proof -
  let ?t = "normalize_keyword (wake_word (config self))"
  have "map_of (rev (normalized_keys ps)) ?t =
          (if filter (\<lambda>k. normalize_keyword k = ?t) (map fst ps) = [] then None
           else Some (last (filter (\<lambda>k. normalize_keyword k = ?t) (map fst ps))))"
    unfolding normalized_keys_def by (rule last_match)
  then show ?thesis using assms by (simp add: target_keywords_def Let_def del: map_map)
qed

lemma score_of_key:
  assumes "distinct (map fst ps)" and "k \<in> set (map fst ps)"
  shows "(thr \<le> dict_get ps k 0) = (\<exists>v. (k, v) \<in> set ps \<and> thr \<le> v)"
proof -
  obtain v where v: "(k, v) \<in> set ps" using assms(2) by auto
  then have "dict_get ps k 0 = v" using assms(1) by (simp add: dict_get_item)
  moreover have "dict_get ps k 0 = v'" if "(k, v') \<in> set ps" for v'
    using that assms(1) by (simp add: dict_get_item)
  ultimately show ?thesis using v by auto
qed

lemma last_filter_mem: "filter P xs \<noteq> [] \<Longrightarrow> last (filter P xs) \<in> set xs"
  using last_in_set [of "filter P xs"] by auto

text \<open>
  Claim C6 says that \<open>detect\<close> restricts the comparison to one keyword when exactly one
  predicted keyword normalises to the wake word, and compares every keyword otherwise. When
  two predicted keywords normalise to the wake word, the source still compares one keyword
  only, the later of the two: with \<open>hey_nano\<close> at 0.9 and \<open>hey nano\<close> at 0.1 against the
  threshold 0.5, \<open>detect\<close> returns false although the first keyword qualifies.
\<close>

theorem detect_keyword_choice_counterexample:
  "normalize_keyword ''hey_nano'' = normalize_keyword ''hey nano''
   \<and> (0.5 :: real) \<le> 0.9
   \<and> \<not> (100 - last_trigger (new_detector \<lparr>wake_word = ''hey nano'', threshold = 0.5, cooldown_s = 2\<rparr>)
          < cooldown_s (config (new_detector \<lparr>wake_word = ''hey nano'', threshold = 0.5, cooldown_s = 2\<rparr>)))
   \<and> detect (new_detector \<lparr>wake_word = ''hey nano'', threshold = 0.5, cooldown_s = 2\<rparr>)
          (Dict [(''hey_nano'', 0.9), (''hey nano'', 0.1)]) 100
        = (False, new_detector \<lparr>wake_word = ''hey nano'', threshold = 0.5, cooldown_s = 2\<rparr>)"
  by code_simp

text \<open>
  Claim C6, amended. For every non-empty prediction mapping, the cooldown having elapsed: if
  the normalised wake word equals the normalisation of at least one predicted keyword,
  \<open>detect\<close> compares only the score of the last such keyword in iteration order with the
  threshold; if it equals none, \<open>detect\<close> compares every predicted keyword's score and
  returns true at the first qualifying one in iteration order. \<open>detect\<close> returns false,
  leaving the detector as it was, when the prediction result is empty or is not a mapping.
\<close>

theorem detect_keyword_choice:
  "detect self NotADict now = (False, self)
   \<and> detect self (Dict []) now = (False, self)
   \<and> (distinct (map fst ps) \<and> ps \<noteq> [] \<and> \<not> now - last_trigger self < cooldown_s (config self) \<longrightarrow>
       (let matching = filter (\<lambda>k. normalize_keyword k = normalize_keyword (wake_word (config self)))
                         (map fst ps);
            found = scan_keywords (threshold (config self)) ps (target_keywords self ps)
        in target_keywords self ps = (if matching \<noteq> [] then [last matching] else map fst ps)
           \<and> found =
               (if matching \<noteq> []
                then (if \<exists>v. (last matching, v) \<in> set ps \<and> threshold (config self) \<le> v
                      then Some (last matching) else None)
                else map_option fst (find (\<lambda>(k, v). threshold (config self) \<le> v) ps))
           \<and> detect self (Dict ps) now =
               (if found = None then (False, self) else (True, self\<lparr>last_trigger := now\<rparr>))))"
proof (intro conjI impI)
  show "detect self NotADict now = (False, self)" by (simp add: detect_def)
  show "detect self (Dict []) now = (False, self)" by (simp add: detect_def target_keywords_def)
next
  assume a: "distinct (map fst ps) \<and> ps \<noteq> [] \<and> \<not> now - last_trigger self < cooldown_s (config self)"
  define matching where
    "matching = filter (\<lambda>k. normalize_keyword k = normalize_keyword (wake_word (config self))) (map fst ps)"
  define found where "found = scan_keywords (threshold (config self)) ps (target_keywords self ps)"
  have t: "target_keywords self ps = (if matching \<noteq> [] then [last matching] else map fst ps)"
  proof -
    have "ps \<noteq> []" using a by simp
    from target_keywords_choice [OF this, of self] show ?thesis
      unfolding matching_def Let_def .
  qed
  have f: "found =
               (if matching \<noteq> []
                then (if \<exists>v. (last matching, v) \<in> set ps \<and> threshold (config self) \<le> v
                      then Some (last matching) else None)
                else map_option fst (find (\<lambda>(k, v). threshold (config self) \<le> v) ps))"
  proof (cases "matching = []")
    case True
    moreover have "scan_keywords (threshold (config self)) ps (map fst ps)
                   = map_option fst (find (\<lambda>(k, v). threshold (config self) \<le> v) ps)"
      using a by (intro scan_all_items) simp
    ultimately show ?thesis by (simp add: found_def t)
  next
    case False
    then have "last matching \<in> set (map fst ps)" unfolding matching_def by (rule last_filter_mem)
    then have "(threshold (config self) \<le> dict_get ps (last matching) 0)
               = (\<exists>v. (last matching, v) \<in> set ps \<and> threshold (config self) \<le> v)"
      using a by (intro score_of_key) auto
    moreover have "scan_keywords (threshold (config self)) ps [last matching]
                   = (if threshold (config self) \<le> dict_get ps (last matching) 0
                      then Some (last matching) else None)"
      by (simp add: Let_def)
    ultimately show ?thesis using False by (simp add: found_def t)
  qed
  have d: "detect self (Dict ps) now =
               (if found = None then (False, self) else (True, self\<lparr>last_trigger := now\<rparr>))"
    using a by (simp add: detect_def found_def split: option.splits)
  show "let matching = filter (\<lambda>k. normalize_keyword k = normalize_keyword (wake_word (config self)))
                         (map fst ps);
            found = scan_keywords (threshold (config self)) ps (target_keywords self ps)
        in target_keywords self ps = (if matching \<noteq> [] then [last matching] else map fst ps)
           \<and> found =
               (if matching \<noteq> []
                then (if \<exists>v. (last matching, v) \<in> set ps \<and> threshold (config self) \<le> v
                      then Some (last matching) else None)
                else map_option fst (find (\<lambda>(k, v). threshold (config self) \<le> v) ps))
           \<and> detect self (Dict ps) now =
               (if found = None then (False, self) else (True, self\<lparr>last_trigger := now\<rparr>))"
    unfolding Let_def matching_def [symmetric] found_def [symmetric] using t f d by blast
qed

theorem detect_keyword_choice_witness:
  "distinct (map fst [(''alexa'', 0.7 :: real), (''hey_nano'', 0.9)])
   \<and> [(''alexa'', 0.7 :: real), (''hey_nano'', 0.9)] \<noteq> []
   \<and> \<not> 100 - last_trigger (new_detector \<lparr>wake_word = ''Hey Nano'', threshold = 0.8, cooldown_s = 2\<rparr>)
          < cooldown_s (config (new_detector \<lparr>wake_word = ''Hey Nano'', threshold = 0.8, cooldown_s = 2\<rparr>))
   \<and> target_keywords (new_detector \<lparr>wake_word = ''Hey Nano'', threshold = 0.8, cooldown_s = 2\<rparr>)
        [(''alexa'', 0.7), (''hey_nano'', 0.9)] = [''hey_nano'']
   \<and> detect (new_detector \<lparr>wake_word = ''Hey Nano'', threshold = 0.8, cooldown_s = 2\<rparr>)
        (Dict [(''alexa'', 0.7), (''hey_nano'', 0.9)]) 100
      = (True, new_detector \<lparr>wake_word = ''Hey Nano'', threshold = 0.8, cooldown_s = 2\<rparr>
                 \<lparr>last_trigger := 100\<rparr>)"
proof -
  let ?d = "new_detector \<lparr>wake_word = ''Hey Nano'', threshold = 0.8, cooldown_s = 2\<rparr>"
  let ?ps = "[(''alexa'', 0.7 :: real), (''hey_nano'', 0.9)]"
  have h1: "distinct (map fst ?ps)" by simp
  have h2: "?ps \<noteq> []" by simp
  have h3: "\<not> 100 - last_trigger ?d < cooldown_s (config ?d)" by (simp add: new_detector_def)
  have m: "filter (\<lambda>k. normalize_keyword k = normalize_keyword (wake_word (config ?d))) (map fst ?ps)
           = [''hey_nano'']"
    by code_simp
  have s: "(\<exists>v. (''hey_nano'', v) \<in> set ?ps \<and> threshold (config ?d) \<le> v)"
    by (intro exI [of _ "0.9"]) (simp add: new_detector_def)
  from detect_keyword_choice [of ?d 100 ?ps] h1 h2 h3
  have "let matching = filter (\<lambda>k. normalize_keyword k = normalize_keyword (wake_word (config ?d)))
                         (map fst ?ps);
            found = scan_keywords (threshold (config ?d)) ?ps (target_keywords ?d ?ps)
        in target_keywords ?d ?ps = (if matching \<noteq> [] then [last matching] else map fst ?ps)
           \<and> found =
               (if matching \<noteq> []
                then (if \<exists>v. (last matching, v) \<in> set ?ps \<and> threshold (config ?d) \<le> v
                      then Some (last matching) else None)
                else map_option fst (find (\<lambda>(k, v). threshold (config ?d) \<le> v) ?ps))
           \<and> detect ?d (Dict ?ps) 100 =
               (if found = None then (False, ?d) else (True, ?d\<lparr>last_trigger := 100\<rparr>))"
    by blast
  then have "target_keywords ?d ?ps = [''hey_nano'']
      \<and> detect ?d (Dict ?ps) 100 = (True, ?d\<lparr>last_trigger := 100\<rparr>)"
    unfolding Let_def m using s by (simp add: dict_get_def new_detector_def)
  with h1 h2 h3 show ?thesis by blast
qed

section \<open>Properties of the utterance handler\<close>

lemma speak_and_play_actions:
  "\<exists>played. snd (speak_and_play env response s)
       = s\<lparr>actions := actions s @ (Speak response, speaking_flag s) # played\<rparr>
     \<and> (played = [] \<or> (\<exists>tts_path. played = [(PlayWav tts_path, speaking_flag s)]))"
  by (auto simp: speak_and_play_def act_def Let_def split: sum.splits option.splits)

lemma speak_finally_clears:
  "\<exists>result played. speak_finally env response s
       = (result, s\<lparr>speaking_flag := False,
                    actions := actions s @ (Speak response, speaking_flag s) # played
                                 @ [(SetSpeaking False, False)]\<rparr>)
     \<and> (played = [] \<or> (\<exists>tts_path. played = [(PlayWav tts_path, speaking_flag s)]))"
proof -
  obtain played where p: "snd (speak_and_play env response s)
       = s\<lparr>actions := actions s @ (Speak response, speaking_flag s) # played\<rparr>"
     "played = [] \<or> (\<exists>tts_path. played = [(PlayWav tts_path, speaking_flag s)])"
    using speak_and_play_actions by blast
  have "speak_finally env response s
       = (fst (speak_and_play env response s), set_speaking False (snd (speak_and_play env response s)))"
    by (simp add: speak_finally_def split: prod.splits)
  also have "set_speaking False (snd (speak_and_play env response s))
       = s\<lparr>speaking_flag := False,
            actions := actions s @ (Speak response, speaking_flag s) # played
                         @ [(SetSpeaking False, False)]\<rparr>"
    unfolding p(1) by (simp add: set_speaking_def act_def)
  finally have "speak_finally env response s
       = (fst (speak_and_play env response s),
          s\<lparr>speaking_flag := False,
            actions := actions s @ (Speak response, speaking_flag s) # played
                         @ [(SetSpeaking False, False)]\<rparr>)" .
  with p(2) show ?thesis by blast
qed

text \<open>
  Claim C8. When the handler has obtained a non-empty agent reply, it sets the speaking flag
  before synthesis begins, so that the flag is set while synthesis runs and while playback
  runs; and whatever synthesis and playback do (return a path or none, play, or raise) the
  last thing the handler does is to clear the flag: it ends with the flag clear.
\<close>

theorem speaking_flag_set_then_cleared:
  assumes "transcribe env audio_path = Inr text" and "text \<noteq> []"
    and "process_direct env text = Inr (Some response)" and "response \<noteq> []"
  shows "\<exists>result played. handle_utterance env audio_path s
       = (result, s\<lparr>speaking_flag := False,
                    actions := actions s
                                 @ [(Transcribe audio_path, speaking_flag s),
                                    (ProcessDirect text, speaking_flag s),
                                    (SetSpeaking True, True), (Speak response, True)]
                                 @ played @ [(SetSpeaking False, False)]\<rparr>)
     \<and> (played = [] \<or> (\<exists>tts_path. played = [(PlayWav tts_path, True)]))"
proof -
  let ?s = "set_speaking True (act (ProcessDirect text) (act (Transcribe audio_path) s))"
  have flag: "speaking_flag ?s = True" by (simp add: set_speaking_def act_def)
  obtain result played where p: "speak_finally env response ?s
       = (result, ?s\<lparr>speaking_flag := False,
                    actions := actions ?s @ (Speak response, speaking_flag ?s) # played
                                 @ [(SetSpeaking False, False)]\<rparr>)"
     "played = [] \<or> (\<exists>tts_path. played = [(PlayWav tts_path, speaking_flag ?s)])"
    using speak_finally_clears by blast
  have "handle_utterance env audio_path s = speak_finally env response ?s"
    using assms by (simp add: handle_utterance_def Let_def)
  also have "\<dots> = (result, s\<lparr>speaking_flag := False,
                    actions := actions s
                                 @ [(Transcribe audio_path, speaking_flag s),
                                    (ProcessDirect text, speaking_flag s),
                                    (SetSpeaking True, True), (Speak response, True)]
                                 @ played @ [(SetSpeaking False, False)]\<rparr>)"
    unfolding p(1) by (simp add: set_speaking_def act_def)
  finally show ?thesis using p(2) unfolding flag by blast
qed

theorem speaking_flag_set_then_cleared_witness:
  "transcribe \<lparr>transcribe = (\<lambda>p. Inr ''what time is it''), process_direct = (\<lambda>t. Inr (Some ''noon'')),
               speak = (\<lambda>r. Inr (Some ''response.wav'')), play_wav = (\<lambda>p. Inl (Raised ''device lost''))\<rparr>
      ''utterance.wav'' = Inr ''what time is it''
   \<and> ''what time is it'' \<noteq> []
   \<and> ''noon'' \<noteq> []
   \<and> handle_utterance
        \<lparr>transcribe = (\<lambda>p. Inr ''what time is it''), process_direct = (\<lambda>t. Inr (Some ''noon'')),
         speak = (\<lambda>r. Inr (Some ''response.wav'')), play_wav = (\<lambda>p. Inl (Raised ''device lost''))\<rparr>
        ''utterance.wav'' \<lparr>speaking_flag = False, actions = []\<rparr>
      = (Inl (Raised ''device lost''),
         \<lparr>speaking_flag = False,
          actions = [(Transcribe ''utterance.wav'', False), (ProcessDirect ''what time is it'', False),
                     (SetSpeaking True, True), (Speak ''noon'', True),
                     (PlayWav ''response.wav'', True), (SetSpeaking False, False)]\<rparr>)"
proof -
  let ?env = "\<lparr>transcribe = (\<lambda>p. Inr ''what time is it''), process_direct = (\<lambda>t. Inr (Some ''noon'')),
               speak = (\<lambda>r. Inr (Some ''response.wav'')), play_wav = (\<lambda>p. Inl (Raised ''device lost''))\<rparr>"
  have h1: "transcribe ?env ''utterance.wav'' = Inr ''what time is it''" by simp
  have h2: "''what time is it'' \<noteq> []" by simp
  have h3: "process_direct ?env ''what time is it'' = Inr (Some ''noon'')" by simp
  have h4: "''noon'' \<noteq> []" by simp
  from speaking_flag_set_then_cleared [OF h1 h2 h3 h4, of "\<lparr>speaking_flag = False, actions = []\<rparr>"]
  obtain result played where
    r: "handle_utterance ?env ''utterance.wav'' \<lparr>speaking_flag = False, actions = []\<rparr>
       = (result, \<lparr>speaking_flag = False, actions = [] \<rparr>\<lparr>speaking_flag := False,
                    actions := actions \<lparr>speaking_flag = False, actions = []\<rparr>
                                 @ [(Transcribe ''utterance.wav'',
                                       speaking_flag \<lparr>speaking_flag = False, actions = []\<rparr>),
                                    (ProcessDirect ''what time is it'',
                                       speaking_flag \<lparr>speaking_flag = False, actions = []\<rparr>),
                                    (SetSpeaking True, True), (Speak ''noon'', True)]
                                 @ played @ [(SetSpeaking False, False)]\<rparr>)"
    by blast
  have e: "handle_utterance ?env ''utterance.wav'' \<lparr>speaking_flag = False, actions = []\<rparr>
      = (Inl (Raised ''device lost''),
         \<lparr>speaking_flag = False,
          actions = [(Transcribe ''utterance.wav'', False), (ProcessDirect ''what time is it'', False),
                     (SetSpeaking True, True), (Speak ''noon'', True),
                     (PlayWav ''response.wav'', True), (SetSpeaking False, False)]\<rparr>)"
    by (simp add: handle_utterance_def speak_finally_def speak_and_play_def set_speaking_def act_def Let_def)
  from r e h1 h2 h4 show ?thesis by simp
qed

text \<open>
  Claim C9. When the transcription is empty, the handler returns after the transcription
  alone: no agent call, no synthesis, no playback. When the agent's reply is empty or absent,
  it returns after the agent call: no synthesis, no playback. In both cases the speaking flag
  is never written (it has its first value at every action and at the end) and the handler
  returns normally, with no error.
\<close>

theorem silent_turns:
  "(transcribe env audio_path = Inr []
      \<longrightarrow> handle_utterance env audio_path s
          = (Inr (), s\<lparr>actions := actions s @ [(Transcribe audio_path, speaking_flag s)]\<rparr>))
   \<and> (transcribe env' audio_path' = Inr text \<and> text \<noteq> []
       \<and> (process_direct env' text = Inr None \<or> process_direct env' text = Inr (Some []))
      \<longrightarrow> handle_utterance env' audio_path' s'
          = (Inr (), s'\<lparr>actions := actions s' @ [(Transcribe audio_path', speaking_flag s'),
                                                  (ProcessDirect text, speaking_flag s')]\<rparr>))"
  by (auto simp: handle_utterance_def act_def Let_def)

theorem silent_turns_witness:
  "transcribe \<lparr>transcribe = (\<lambda>p. Inr []), process_direct = (\<lambda>t. Inr (Some ''noon'')),
               speak = (\<lambda>r. Inr (Some ''response.wav'')), play_wav = (\<lambda>p. Inr ())\<rparr>
      ''utterance.wav'' = Inr []
   \<and> handle_utterance
        \<lparr>transcribe = (\<lambda>p. Inr []), process_direct = (\<lambda>t. Inr (Some ''noon'')),
         speak = (\<lambda>r. Inr (Some ''response.wav'')), play_wav = (\<lambda>p. Inr ())\<rparr>
        ''utterance.wav'' \<lparr>speaking_flag = False, actions = []\<rparr>
      = (Inr (), \<lparr>speaking_flag = False, actions = [(Transcribe ''utterance.wav'', False)]\<rparr>)
   \<and> process_direct
        \<lparr>transcribe = (\<lambda>p. Inr ''hello''), process_direct = (\<lambda>t. Inr (Some [])),
         speak = (\<lambda>r. Inr (Some ''response.wav'')), play_wav = (\<lambda>p. Inr ())\<rparr>
        ''hello'' = Inr (Some [])
   \<and> handle_utterance
        \<lparr>transcribe = (\<lambda>p. Inr ''hello''), process_direct = (\<lambda>t. Inr (Some [])),
         speak = (\<lambda>r. Inr (Some ''response.wav'')), play_wav = (\<lambda>p. Inr ())\<rparr>
        ''utterance.wav'' \<lparr>speaking_flag = False, actions = []\<rparr>
      = (Inr (), \<lparr>speaking_flag = False,
                  actions = [(Transcribe ''utterance.wav'', False), (ProcessDirect ''hello'', False)]\<rparr>)"
proof -
  let ?env = "\<lparr>transcribe = (\<lambda>p. Inr []), process_direct = (\<lambda>t. Inr (Some ''noon'')),
               speak = (\<lambda>r. Inr (Some ''response.wav'')), play_wav = (\<lambda>p. Inr ())\<rparr>"
  let ?env' = "\<lparr>transcribe = (\<lambda>p. Inr ''hello''), process_direct = (\<lambda>t. Inr (Some [])),
         speak = (\<lambda>r. Inr (Some ''response.wav'')), play_wav = (\<lambda>p. Inr ())\<rparr>"
  let ?s = "\<lparr>speaking_flag = False, actions = []\<rparr>"
  have h1: "transcribe ?env ''utterance.wav'' = Inr []" by simp
  have h2: "transcribe ?env' ''utterance.wav'' = Inr ''hello''" by simp
  have h3: "''hello'' \<noteq> []" by simp
  have h4: "process_direct ?env' ''hello'' = Inr (Some [])" by simp
  from silent_turns [of ?env "''utterance.wav''" ?s ?env' "''utterance.wav''" "''hello''" ?s]
    h1 h2 h3 h4
  have "handle_utterance ?env ''utterance.wav'' ?s
          = (Inr (), ?s\<lparr>actions := actions ?s @ [(Transcribe ''utterance.wav'', speaking_flag ?s)]\<rparr>)"
    and "handle_utterance ?env' ''utterance.wav'' ?s
          = (Inr (), ?s\<lparr>actions := actions ?s @ [(Transcribe ''utterance.wav'', speaking_flag ?s),
                                                    (ProcessDirect ''hello'', speaking_flag ?s)]\<rparr>)"
    by blast+
  with h1 h4 show ?thesis by simp
qed

end
